theory Spec2Isabelle
  imports Complex_Main "HOL-Library.Monad_Syntax" "HOL-Library.List_Lexorder"
    "HOL-Library.Char_ord" "HOL-Library.Multiset"
begin

section \<open>MonitoringApp.py: constants and errors\<close>

text \<open>
  Python floats are modelled as the real numbers they approximate, Python's unbounded
  integers that stand for quantities as reals as well (\<open>MAX_FREQ\<close> is mixed with floats
  in every use). A local variable that is read before any branch assigned it raises
  \<open>UnboundLocalError\<close> in Python; selecting a missing column of a DataFrame raises
  \<open>KeyError\<close>; comparing a string with a number raises \<open>TypeError\<close>. These are the
  values of \<open>py_error\<close>, returned as \<open>Inl\<close>.
\<close>

datatype py_error = UnboundLocalError | KeyError | TypeError

definition MIN_DIST :: real where "MIN_DIST = 4"
definition MAX_DIST :: real where "MAX_DIST = 20"
definition MIN_FREQ :: real where "MIN_FREQ = 100"
definition MAX_FREQ :: real where "MAX_FREQ = 2000"
definition VIOLET_RATIO :: real where "VIOLET_RATIO = 0.75"
definition BUFFER_SIZE :: nat where "BUFFER_SIZE = 250"
definition RDM_TIME :: real where "RDM_TIME = 1"
definition ORD_TIME :: real where "ORD_TIME = 2"
definition MS_MODE :: int where "MS_MODE = 1"
definition RDM_MODE :: int where "RDM_MODE = 2"
definition ORD_MODE :: int where "ORD_MODE = 3"
definition ULTRASONIC_CONVERSION :: real where "ULTRASONIC_CONVERSION = 79"
definition DUTY_CYCLE :: real where "DUTY_CYCLE = 10"

section \<open>frequency, buzzer\<close>

text \<open>
  \<open>frequency(distance)\<close>: \<open>freq\<close> is assigned in three places; on the \<open>else\<close> path it is
  assigned only under the inner test, and \<open>return freq\<close> raises when it was not.
  The result is \<open>None\<close> or a number.
\<close>

definition frequency :: "real \<Rightarrow> py_error + real option" where
  "frequency distance =
     (if distance > MAX_DIST then Inr None
      else if distance < MIN_DIST then Inr (Some MAX_FREQ)
      else
        (let freq_proportion = (distance - MIN_DIST) / (MAX_DIST - MIN_DIST) in
         if distance \<le> MAX_DIST \<and> distance \<ge> MIN_DIST
         then Inr (Some (MAX_FREQ - freq_proportion * (MAX_FREQ - MIN_FREQ)))
         else Inl UnboundLocalError))"

text \<open>Python's truth value of \<open>freq\<close> in \<open>if freq:\<close>: \<open>None\<close> and zero are false.\<close>

fun truthy :: "real option \<Rightarrow> bool" where
  "truthy None = False"
| "truthy (Some x) = (x \<noteq> 0)"

text \<open>The commands the program sends to the PWM buzzer object \<open>buzz\<close>, in order.\<close>

datatype buzz_cmd = ChangeFrequency real | Start real | Stop

text \<open>
  \<open>buzzer(distance)\<close>: changes the frequency when \<open>freq\<close> is truthy, starts the buzzer and
  returns \<open>freq\<close>. The state is the list of commands sent so far.
\<close>

definition buzzer :: "real \<Rightarrow> buzz_cmd list \<Rightarrow> py_error + (real option \<times> buzz_cmd list)" where
  "buzzer distance buzz =
     (case frequency distance of
        Inl e \<Rightarrow> Inl e
      | Inr freq \<Rightarrow>
          (let buzz1 = (if truthy freq then buzz @ [ChangeFrequency (the freq)] else buzz)
           in Inr (freq, buzz1 @ [Start DUTY_CYCLE])))"

text \<open>
  The same function with the guard written \<open>if freq is not None:\<close>, for comparison with
  the truthiness guard of the source.
\<close>

definition buzzer_is_not_None :: "real \<Rightarrow> buzz_cmd list \<Rightarrow> py_error + (real option \<times> buzz_cmd list)" where
  "buzzer_is_not_None distance buzz =
     (case frequency distance of
        Inl e \<Rightarrow> Inl e
      | Inr freq \<Rightarrow>
          (let buzz1 = (if freq \<noteq> None then buzz @ [ChangeFrequency (the freq)] else buzz)
           in Inr (freq, buzz1 @ [Start DUTY_CYCLE])))"

text \<open>
  Lines 567 to 571 of \<open>run_mode\<close>: \<open>freq = frequency(distance)\<close>, and under \<open>if freq:\<close> the
  frequency is truncated to an integer (\<open>int(freq)\<close>, towards zero) and sent to the buzzer.
\<close>

definition py_int :: "real \<Rightarrow> real" where
  "py_int x = (if x \<ge> 0 then of_int \<lfloor>x\<rfloor> else of_int \<lceil>x\<rceil>)"

definition set_tone :: "real \<Rightarrow> buzz_cmd list \<Rightarrow> py_error + (real option \<times> buzz_cmd list)" where
  "set_tone distance buzz =
     (case frequency distance of
        Inl e \<Rightarrow> Inl e
      | Inr freq \<Rightarrow>
          (if truthy freq
           then (let freq1 = py_int (the freq) in Inr (Some freq1, buzz @ [ChangeFrequency freq1]))
           else Inr (freq, buzz)))"

definition set_tone_is_not_None :: "real \<Rightarrow> buzz_cmd list \<Rightarrow> py_error + (real option \<times> buzz_cmd list)" where
  "set_tone_is_not_None distance buzz =
     (case frequency distance of
        Inl e \<Rightarrow> Inl e
      | Inr freq \<Rightarrow>
          (if freq \<noteq> None
           then (let freq1 = py_int (the freq) in Inr (Some freq1, buzz @ [ChangeFrequency freq1]))
           else Inr (freq, buzz)))"

section \<open>get_color\<close>

text \<open>
  \<open>get_color(percent)\<close>: the input is scaled by \<open>VIOLET_RATIO\<close>, then six guarded branches
  assign \<open>red, green, blue\<close>. \<open>100 * 1/6\<close> is \<open>(100 * 1) / 6\<close> in Python as here. When no
  guard holds, \<open>return red, green, blue\<close> raises.
\<close>

definition get_color :: "real \<Rightarrow> py_error + (real \<times> real \<times> real)" where
  "get_color percent0 =
     (let percent = percent0 * VIOLET_RATIO in
      if percent \<le> 100 * 1/6
        then Inr (1, percent / (100 * 1/6), 0)
      else if 100 * 1/6 < percent \<and> percent \<le> 100 * 2/6
        then Inr (1 - (percent - 100 * 1/6) / (100 * 1/6), 1, 0)
      else if 100 * 2/6 < percent \<and> percent \<le> 100 * 3/6
        then Inr (0, 1, (percent - 100 * 2/6) / (100 * 1/6))
      else if 100 * 3/6 < percent \<and> percent \<le> 100 * 4/6
        then Inr (0, 1 - (percent - 100 * 3/6) / (100 * 1/6), 1)
      else if 100 * 4/6 < percent \<and> percent \<le> 100 * 5/6
        then Inr ((percent - 100 * 4/6) / (100 * 1/6), 0, 1)
      else if percent > 5/6
        then Inr (1, 0, 1 - (percent - 100 * 5/6) / (100 * 1/6))
      else Inl UnboundLocalError)"

text \<open>
  The number of the branch of \<open>get_color\<close> whose guard is the first to hold (the same
  guards, in the same order), \<open>None\<close> when no guard holds.
\<close>

definition get_color_branch :: "real \<Rightarrow> nat option" where
  "get_color_branch percent0 =
     (let percent = percent0 * VIOLET_RATIO in
      if percent \<le> 100 * 1/6 then Some 1
      else if 100 * 1/6 < percent \<and> percent \<le> 100 * 2/6 then Some 2
      else if 100 * 2/6 < percent \<and> percent \<le> 100 * 3/6 then Some 3
      else if 100 * 3/6 < percent \<and> percent \<le> 100 * 4/6 then Some 4
      else if 100 * 4/6 < percent \<and> percent \<le> 100 * 5/6 then Some 5
      else if percent > 5/6 then Some 6
      else None)"

text \<open>\<open>get_color\<close> with its sixth branch deleted.\<close>

definition get_color_five :: "real \<Rightarrow> py_error + (real \<times> real \<times> real)" where
  "get_color_five percent0 =
     (let percent = percent0 * VIOLET_RATIO in
      if percent \<le> 100 * 1/6
        then Inr (1, percent / (100 * 1/6), 0)
      else if 100 * 1/6 < percent \<and> percent \<le> 100 * 2/6
        then Inr (1 - (percent - 100 * 1/6) / (100 * 1/6), 1, 0)
      else if 100 * 2/6 < percent \<and> percent \<le> 100 * 3/6
        then Inr (0, 1, (percent - 100 * 2/6) / (100 * 1/6))
      else if 100 * 3/6 < percent \<and> percent \<le> 100 * 4/6
        then Inr (0, 1 - (percent - 100 * 3/6) / (100 * 1/6), 1)
      else if 100 * 4/6 < percent \<and> percent \<le> 100 * 5/6
        then Inr ((percent - 100 * 4/6) / (100 * 1/6), 0, 1)
      else Inl UnboundLocalError)"

section \<open>sonic\<close>

text \<open>
  \<open>sonic()\<close> reads three things it does not control: the echo pin, the clock and the
  global \<open>mode\<close>, which the button handler may rewrite at any moment. The environment is
  the sequence of what these reads return: observation \<open>i\<close> gives the echo level, the shared
  mode and the clock at the \<open>i\<close>-th evaluation of a loop condition (the body of that
  iteration reads the clock of the same observation). Every evaluation of a loop condition
  uses up one observation. A loop that never ends has no result (\<open>None\<close>). The trigger
  pulse sent before the loops is an output and leaves no trace in the result; an interrupt
  from the keyboard is not part of this environment.
\<close>

record obs =
  echo :: nat
  shared_mode :: int
  clock :: real

text \<open>
  The two inner loops, \<open>while gpio.input(ECHO)==0 and old_mode == mode\<close> (level 0, saving
  \<open>pulse_start\<close>) and \<open>while gpio.input(ECHO)==1 and old_mode == mode\<close> (level 1, saving
  \<open>pulse_end\<close>). The result is the next observation and the time saved last.
\<close>

partial_function (option) echo_wait ::
  "nat \<Rightarrow> (nat \<Rightarrow> obs) \<Rightarrow> int \<Rightarrow> nat \<Rightarrow> real \<Rightarrow> (nat \<times> real) option" where
  "echo_wait level env old_mode i pulse =
     (if echo (env i) = level \<and> shared_mode (env i) = old_mode
      then echo_wait level env old_mode (Suc i) (clock (env i))
      else Some (Suc i, pulse))"

declare echo_wait.simps [code]

text \<open>The enclosing loop \<open>while pulse_duration <= 0 and old_mode == mode\<close>.\<close>

partial_function (option) pulse_loop ::
  "(nat \<Rightarrow> obs) \<Rightarrow> int \<Rightarrow> nat \<Rightarrow> real \<Rightarrow> real \<Rightarrow> real \<Rightarrow> (nat \<times> real) option" where
  "pulse_loop env old_mode i pulse_start pulse_end pulse_duration =
     (if pulse_duration \<le> 0 \<and> shared_mode (env i) = old_mode
      then do {
        (i1, pulse_start1) \<leftarrow> echo_wait 0 env old_mode (Suc i) pulse_start;
        (i2, pulse_end1) \<leftarrow> echo_wait 1 env old_mode i1 pulse_end;
        pulse_loop env old_mode i2 pulse_start1 pulse_end1 ((pulse_end1 - pulse_start1) * 1000000)
      }
      else Some (Suc i, pulse_duration))"

declare pulse_loop.simps [code]

text \<open>\<open>round(x, 2)\<close>: to two decimals, a tie going to the even neighbour.\<close>

definition py_round2 :: "real \<Rightarrow> real" where
  "py_round2 x =
     (let y = x * 100; f = \<lfloor>y\<rfloor>; d = y - of_int f in
      (if d < 1/2 then of_int f
       else if d > 1/2 then of_int (f + 1)
       else if even f then of_int f else of_int (f + 1)) / 100)"

text \<open>
  \<open>sonic()\<close> entered at observation \<open>i0\<close>, where it reads \<open>old_mode\<close>. The result is the
  next unused observation, \<open>dtime\<close> and \<open>distance\<close>.
\<close>

definition sonic :: "(nat \<Rightarrow> obs) \<Rightarrow> nat \<Rightarrow> (nat \<times> real \<times> real) option" where
  "sonic env i0 =
     (let old_mode = shared_mode (env i0) in
      do {
        (i, pulse_duration) \<leftarrow> pulse_loop env old_mode (Suc i0) 0 0 (- 1);
        let dtime = clock (env i);
        let distance = py_round2 (pulse_duration / ULTRASONIC_CONVERSION);
        Some (Suc i, dtime, distance)
      })"

text \<open>
  An environment in which the echo line stays low for ever and the mode changes from 1 to
  2 at observation 5; observation \<open>j\<close> is made at time \<open>j\<close>.
\<close>

definition env_change_at_5 :: "nat \<Rightarrow> obs" where
  "env_change_at_5 j = \<lparr>echo = 0, shared_mode = (if j < 5 then 1 else 2), clock = real j\<rparr>"

section \<open>get_mode\<close>

text \<open>
  \<open>get_mode\<close> is the handler of the button: it polls the button and the clock in
  busy-wait loops. As for \<open>sonic\<close>, the environment is the sequence of what these reads
  return, one observation for each evaluation of a loop condition (the clock of
  \<open>time.time() - t0 <= ...\<close> and the button state read in the body of that iteration); the
  test \<open>if button.is_pressed\<close> on entry, with the \<open>t0 = time.time()\<close> under it, is one
  observation, and so is the test that sees the second press, with the \<open>t1 = time.time()\<close>
  under it. The function changes the global \<open>mode\<close>, prints to the console and drives the
  LED \<open>regled\<close>; the state holds the mode, the lines printed and the commands sent to the
  LED, in order. An interrupt from the keyboard is not part of this environment.
\<close>

record button_obs =
  is_pressed :: bool
  time_now :: real

datatype led_cmd = LedOn | LedOff | LedBlink

record sys =
  mode :: int
  console :: "string list"
  regled :: "led_cmd list"

text \<open>
  The four polling loops of \<open>get_mode\<close> have one shape,
  \<open>while time.time() - t0 <= limit: if button.is_pressed [is want]: ...\<close> where the body of
  the \<open>if\<close> always returns. \<open>poll_until\<close> is that loop up to the point where it is left:
  \<open>Seen i\<close> when observation \<open>i\<close> showed the button in the wanted state, \<open>Expired i\<close> when the
  clock of observation \<open>i\<close> was past the limit.
\<close>

datatype poll = Seen nat | Expired nat

partial_function (option) poll_until ::
  "(nat \<Rightarrow> button_obs) \<Rightarrow> real \<Rightarrow> real \<Rightarrow> bool \<Rightarrow> nat \<Rightarrow> poll option" where
  "poll_until env t0 limit want i =
     (if time_now (env i) - t0 \<le> limit
      then (if is_pressed (env i) = want then Some (Seen i)
            else poll_until env t0 limit want (i + 1))
      else Some (Expired i))"

declare poll_until.simps [code]

text \<open>Lines 425 to 428: \<open>if mode != RDM_MODE: print("RDM mode"); mode = RDM_MODE; regled.on()\<close>.\<close>

definition to_RDM :: "sys \<Rightarrow> sys" where
  "to_RDM s =
     (if mode s \<noteq> RDM_MODE
      then s\<lparr>console := console s @ [''RDM mode''], mode := RDM_MODE, regled := regled s @ [LedOn]\<rparr>
      else s)"

text \<open>Lines 437 to 440 and again 448 to 451: the same for \<open>MS_MODE\<close>, with \<open>regled.off()\<close>.\<close>

definition to_MS :: "sys \<Rightarrow> sys" where
  "to_MS s =
     (if mode s \<noteq> MS_MODE
      then s\<lparr>console := console s @ [''MS mode''], mode := MS_MODE, regled := regled s @ [LedOff]\<rparr>
      else s)"

text \<open>Lines 454 to 457: the same for \<open>ORD_MODE\<close>, with \<open>regled.blink()\<close>.\<close>

definition to_ORD :: "sys \<Rightarrow> sys" where
  "to_ORD s =
     (if mode s \<noteq> ORD_MODE
      then s\<lparr>console := console s @ [''ORD Mode''], mode := ORD_MODE, regled := regled s @ [LedBlink]\<rparr>
      else s)"

text \<open>
  Lines 431 to 433, reached when the second press was not released in time:
  \<open>print("MS mode"); mode = MS_MODE; regled.off()\<close>, under no test of the mode.
\<close>

definition restart_MS :: "sys \<Rightarrow> sys" where
  "restart_MS s =
     s\<lparr>console := console s @ [''MS mode''], mode := MS_MODE, regled := regled s @ [LedOff]\<rparr>"

text \<open>
  \<open>get_mode(t0)\<close> entered at observation \<open>i\<close>; \<open>t0 = -1\<close> stands for "not yet set", as in the
  source. The result is the next unused observation and the new state. The recursive call
  \<open>get_mode(t1)\<close> may follow itself without end when the button is tapped for ever, so the
  function is partial.
\<close>

partial_function (option) get_mode ::
  "(nat \<Rightarrow> button_obs) \<Rightarrow> real \<Rightarrow> nat \<Rightarrow> sys \<Rightarrow> (nat \<times> sys) option" where
  "get_mode env t0 i s =
     (if is_pressed (env i) then
        (let t0 = (if t0 = - 1 then time_now (env i) else t0) in
         do {
           r1 \<leftarrow> poll_until env t0 RDM_TIME False (i + 1);
           case r1 of
             Seen n1 \<Rightarrow> do {
               r2 \<leftarrow> poll_until env t0 RDM_TIME True (n1 + 1);
               case r2 of
                 Seen n2 \<Rightarrow>
                   (let t1 = time_now (env n2) in
                    do {
                      r3 \<leftarrow> poll_until env t0 RDM_TIME False (n2 + 1);
                      case r3 of
                        Seen n3 \<Rightarrow> Some (n3 + 1, to_RDM s)
                      | Expired n3 \<Rightarrow> get_mode env t1 (n3 + 1) (restart_MS s)
                    })
               | Expired n2 \<Rightarrow> Some (n2 + 1, to_MS s)
             }
           | Expired n1 \<Rightarrow> do {
               r4 \<leftarrow> poll_until env t0 ORD_TIME False (n1 + 1);
               case r4 of
                 Seen n4 \<Rightarrow> Some (n4 + 1, to_MS s)
               | Expired n4 \<Rightarrow> Some (n4 + 1, to_ORD s)
             }
         })
      else Some (i + 1, s))"

declare get_mode.simps [code]

text \<open>
  What ties an environment to a gesture: \<open>polls \<delta> btn env\<close> says that the observations are
  made at increasing times, no more than \<open>\<delta>\<close> apart and not bounded, and that each shows
  the button as the signal \<open>btn\<close> (pressed or not, as a function of time) has it at that
  time.
\<close>

definition polls :: "real \<Rightarrow> (real \<Rightarrow> bool) \<Rightarrow> (nat \<Rightarrow> button_obs) \<Rightarrow> bool" where
  "polls \<delta> btn env \<longleftrightarrow>
     (\<forall>i. time_now (env i) < time_now (env (i + 1)) \<and>
          time_now (env (i + 1)) \<le> time_now (env i) + \<delta> \<and>
          is_pressed (env i) = btn (time_now (env i))) \<and>
     (\<forall>T. \<exists>i. T < time_now (env i))"

text \<open>The environment that reads the signal \<open>btn\<close> every \<open>dt\<close> seconds, from time 0.\<close>

definition sample :: "real \<Rightarrow> (real \<Rightarrow> bool) \<Rightarrow> nat \<Rightarrow> button_obs" where
  "sample dt btn i = \<lparr>is_pressed = btn (real i * dt), time_now = real i * dt\<rparr>"

text \<open>The state in mode \<open>m\<close> with nothing printed and no command sent yet.\<close>

definition sys_in_mode :: "int \<Rightarrow> sys" where
  "sys_in_mode m = \<lparr>mode = m, console = [], regled = []\<rparr>"

text \<open>
  Button signals for the gestures of the specification, in seconds from the first press:
  a click released at 0.3; a press held to 2.5; a click released at 0.3 with a second
  press from 0.5 to 0.8; a press held to 1.5; and a click released at 0.3 with a second
  press from 0.5 held to 1.2, or to 2.8.
\<close>

definition click_once :: "real \<Rightarrow> bool" where
  "click_once t \<longleftrightarrow> 0 \<le> t \<and> t < 3/10"

definition hold_2500 :: "real \<Rightarrow> bool" where
  "hold_2500 t \<longleftrightarrow> 0 \<le> t \<and> t < 25/10"

definition double_click :: "real \<Rightarrow> bool" where
  "double_click t \<longleftrightarrow> 0 \<le> t \<and> t < 3/10 \<or> 5/10 \<le> t \<and> t < 8/10"

definition hold_1500 :: "real \<Rightarrow> bool" where
  "hold_1500 t \<longleftrightarrow> 0 \<le> t \<and> t < 15/10"

definition tap_then_hold :: "real \<Rightarrow> bool" where
  "tap_then_hold t \<longleftrightarrow> 0 \<le> t \<and> t < 3/10 \<or> 5/10 \<le> t \<and> t < 12/10"

definition tap_then_long_hold :: "real \<Rightarrow> bool" where
  "tap_then_long_hold t \<longleftrightarrow> 0 \<le> t \<and> t < 3/10 \<or> 5/10 \<le> t \<and> t < 28/10"

section \<open>The DataFrame operations used by run_mode\<close>

text \<open>
  \<open>run_mode\<close> keeps its buffer in a pandas DataFrame. The model of a DataFrame is its
  list of column names and its rows, each row with its index label and its cells in the
  order of the columns. A cell holds a string (the time stamps, and the marker \<open>'NaN'\<close>
  that the program writes as the string \<open>'NaN'\<close>), a number, an index label moved into a
  column by \<open>reset_index\<close>, or nothing (what pandas fills in for a column a row does not
  have). Only the operations the program calls are modelled, with the arguments it passes.
\<close>

datatype cell = is_Str: Str (str_of: string) | is_Num: Num real | Idx nat | Missing

record frame =
  columns :: "string list"
  rows :: "(nat \<times> cell list) list"

text \<open>The cell of a row under a column name.\<close>

definition cell_of :: "string list \<Rightarrow> cell list \<Rightarrow> string \<Rightarrow> cell" where
  "cell_of cols r c = (case map_of (zip cols r) c of Some v \<Rightarrow> v | None \<Rightarrow> Missing)"

text \<open>\<open>pd.DataFrame(columns=cols)\<close> and \<open>pd.DataFrame()\<close>: no rows; the latter has no columns.\<close>

definition DataFrame :: "string list \<Rightarrow> frame" where
  "DataFrame cols = \<lparr>columns = cols, rows = []\<rparr>"

text \<open>\<open>pd.DataFrame.from_dict([d])\<close> for a dictionary given as its keys and its values.\<close>

definition from_dict :: "string list \<Rightarrow> cell list \<Rightarrow> frame" where
  "from_dict keys vals = \<lparr>columns = keys, rows = [(0, vals)]\<rparr>"

text \<open>
  \<open>pd.concat([a, b], ignore_index=True, sort=False)\<close>: the columns of \<open>a\<close>, then those of
  \<open>b\<close> that \<open>a\<close> does not have; the rows of \<open>a\<close>, then those of \<open>b\<close>, numbered anew.
\<close>

definition concat_frames :: "frame \<Rightarrow> frame \<Rightarrow> frame" where
  "concat_frames a b =
     (let cs = columns a @ filter (\<lambda>c. c \<notin> set (columns a)) (columns b);
          rs = map (\<lambda>(l, r). map (cell_of (columns a) r) cs) (rows a) @
               map (\<lambda>(l, r). map (cell_of (columns b) r) cs) (rows b)
      in \<lparr>columns = cs, rows = zip [0..<length rs] rs\<rparr>)"

text \<open>\<open>data[cs]\<close> for a list of column names: \<open>KeyError\<close> when one of them is missing.\<close>

definition select_cols :: "string list \<Rightarrow> frame \<Rightarrow> py_error + frame" where
  "select_cols cs f =
     (if set cs \<subseteq> set (columns f)
      then Inr \<lparr>columns = cs, rows = map (\<lambda>(l, r). (l, map (cell_of (columns f) r) cs)) (rows f)\<rparr>
      else Inl KeyError)"

text \<open>
  \<open>data.sort_values(by=[c], inplace=True)\<close> for a column of strings, which Python compares
  in lexicographic order. The rows keep their labels. A missing column is a \<open>KeyError\<close>;
  a key that is not a string is outside what the program sorts and is reported as a
  \<open>TypeError\<close>. Rows with equal keys stay in their order here; pandas does not promise
  that, and nothing below depends on it.
\<close>

definition sort_values :: "string \<Rightarrow> frame \<Rightarrow> py_error + frame" where
  "sort_values c f =
     (if c \<notin> set (columns f) then Inl KeyError
      else if \<exists>(l, r) \<in> set (rows f). \<not> is_Str (cell_of (columns f) r c) then Inl TypeError
      else Inr (f\<lparr>rows := sort_key (\<lambda>(l, r). str_of (cell_of (columns f) r c)) (rows f)\<rparr>))"

text \<open>
  \<open>data.reset_index()\<close>: the old labels become the first column, named \<open>index\<close>, and the
  rows are numbered anew.
\<close>

definition reset_index :: "frame \<Rightarrow> frame" where
  "reset_index f =
     \<lparr>columns = ''index'' # columns f,
      rows = map (\<lambda>(i, (l, r)). (i, Idx l # r)) (zip [0..<length (rows f)] (rows f))\<rparr>"

text \<open>\<open>data[data.columns[1:]]\<close>: the selection of all columns but the first.\<close>

definition drop_first_column :: "frame \<Rightarrow> py_error + frame" where
  "drop_first_column f = select_cols (tl (columns f)) f"

text \<open>
  \<open>f.to_csv(filename, mode="a", index=False, header=h)\<close>: the lines appended to the file,
  a line being the list of its cells; the header line is the list of column names.
\<close>

definition to_csv :: "frame \<Rightarrow> bool \<Rightarrow> cell list list \<Rightarrow> cell list list" where
  "to_csv f h file_lines =
     file_lines @ (if h then [map Str (columns f)] else []) @ map snd (rows f)"

section \<open>run_mode\<close>

definition COLS :: "string list" where
  "COLS = [''Date and Time'', ''Potentiometer %'', ''Distance'']"

text \<open>\<open>mode_settings(cmode)\<close>: the pair \<open>(monitor, record)\<close>.\<close>

definition mode_settings :: "int \<Rightarrow> bool \<times> bool" where
  "mode_settings cmode =
     (let (monitor, record) = (False, False);
          (monitor, record) = (if cmode = 1 then (True, False) else (monitor, record));
          (monitor, record) = (if cmode = 2 then (True, True) else (monitor, record));
          (monitor, record) = (if cmode = 3 then (False, True) else (monitor, record))
      in (monitor, record))"

text \<open>
  What \<open>run_mode\<close> prints: fixed messages, and the two status lines with the values they
  show (how Python prints a float is not modelled).
\<close>

datatype print_line =
    Msg string
  | PotStatus string real "real \<times> real \<times> real"
  | DistStatus string cell "real option"

text \<open>
  The state of one session, that is of one pass of the outer \<open>while True\<close> loop: the local
  variables \<open>monitor\<close>, \<open>record\<close>, \<open>filename\<close> and \<open>data\<close>, the lines this session has appended
  to its file (a new file: its name is made from the clock), what it has printed, the
  colour of the LED, and the commands that lines 484, 567 to 571 and 654 send to the
  buzzer. The timers \<open>dist_t0\<close>, \<open>rgb_t0\<close> and \<open>beep_t0\<close> are not part of the state: which
  readings are taken, and in which order, is the input of a run, with the time stamps as
  the strings that \<open>strftime\<close> produced.
\<close>

record session =
  monitor :: bool
  record_flag :: bool
  filename :: string
  data :: frame
  csv_file :: "cell list list"
  printed :: "print_line list"
  rgbled_color :: "(real \<times> real \<times> real) option"
  buzz :: "buzz_cmd list"

text \<open>
  Lines 481 to 521, the start of a session in mode \<open>m\<close>: \<open>pot_value\<close> is the reading of the
  potentiometer and \<open>fname\<close> the file name made from the clock. When recording, the header
  frame is written to the file with its header line.
\<close>

definition session_start :: "int \<Rightarrow> real \<Rightarrow> string \<Rightarrow> py_error + session" where
  "session_start m pot_value fname =
     (let pot_percent = py_round2 (pot_value * 100) in
      case get_color pot_percent of
        Inl e \<Rightarrow> Inl e
      | Inr rgb \<Rightarrow>
          (let (monitor, record) = mode_settings m;
               header = DataFrame COLS
           in Inr \<lparr>monitor = monitor, record_flag = record, filename = fname,
                   data = DataFrame COLS,
                   csv_file = (if record then to_csv header True [] else []),
                   printed = (if record then [Msg (''Recording data to '' @ fname @ ''...'')] else []),
                   rgbled_color = (if monitor then Some rgb else None),
                   buzz = [Stop]\<rparr>))"

text \<open>
  Lines 528 to 562, one reading of the potentiometer at time stamp \<open>date_time\<close>: the colour
  is set, the status printed when monitoring, and the row
  \<open>{'Date and Time': date_time, 'Potentiometer %': pot_percent, 'Distance': 'NaN'}\<close> appended
  to the buffer when recording.
\<close>

definition pot_reading :: "string \<Rightarrow> real \<Rightarrow> session \<Rightarrow> py_error + session" where
  "pot_reading date_time pot_value s =
     (let pot_percent = py_round2 (pot_value * 100) in
      case get_color pot_percent of
        Inl e \<Rightarrow> Inl e
      | Inr (R, G, B) \<Rightarrow>
          (let s1 = s\<lparr>rgbled_color := Some (R, G, B)\<rparr>;
               rgb = (py_int (R * 255), py_int (G * 255), py_int (B * 255));
               s2 = (if monitor s1
                     then s1\<lparr>printed := printed s1 @ [PotStatus date_time pot_percent rgb]\<rparr>
                     else s1);
               new_data = from_dict COLS [Str date_time, Num pot_percent, Str ''NaN'']
           in Inr (if record_flag s2
                   then s2\<lparr>data := concat_frames (data s2) new_data\<rparr>
                   else s2)))"

text \<open>
  Lines 617 to 630, the row of a range reading: a distance above 100 is replaced by
  \<open>'NaN'\<close>; the row is appended when recording and the status printed when monitoring.
\<close>

definition record_range :: "string \<Rightarrow> real \<Rightarrow> real option \<Rightarrow> session \<Rightarrow> session" where
  "record_range date_time distance freq s =
     (let distance1 = (if distance > 100 then Str ''NaN'' else Num distance);
          new_data = from_dict COLS [Str date_time, Str ''NaN'', distance1];
          s1 = (if record_flag s then s\<lparr>data := concat_frames (data s) new_data\<rparr> else s)
      in if monitor s1
         then s1\<lparr>printed := printed s1 @ [DistStatus date_time distance1 freq]\<rparr>
         else s1)"

text \<open>
  Lines 637 to 644, the first half of the flush: the message, the three columns selected,
  the rows sorted by time stamp, and \<open>data = data[data.columns[1:]]\<close>.
\<close>

definition flush_arrange :: "session \<Rightarrow> py_error + session" where
  "flush_arrange s =
     (let s1 = s\<lparr>printed := printed s @ [Msg ''Writing buffer...'']\<rparr> in
      case select_cols COLS (data s1) of
        Inl e \<Rightarrow> Inl e
      | Inr d1 \<Rightarrow>
          (case sort_values ''Date and Time'' d1 of
             Inl e \<Rightarrow> Inl e
           | Inr d2 \<Rightarrow>
               (case drop_first_column d2 of
                  Inl e \<Rightarrow> Inl e
                | Inr d3 \<Rightarrow> Inr (s1\<lparr>data := d3\<rparr>))))"

text \<open>Lines 646 to 648, the second half: the rows written with no header, the buffer cleared.\<close>

definition flush_write :: "session \<Rightarrow> session" where
  "flush_write s =
     (let s1 = s\<lparr>csv_file := to_csv (data s) False (csv_file s)\<rparr>
      in s1\<lparr>data := DataFrame []\<rparr>)"

text \<open>Lines 636 to 648: the flush under its test \<open>data.index.size > BUFFER_SIZE\<close>.\<close>

definition flush_if_full :: "session \<Rightarrow> py_error + session" where
  "flush_if_full s =
     (if length (rows (data s)) > BUFFER_SIZE
      then (case flush_arrange s of Inl e \<Rightarrow> Inl e | Inr s1 \<Rightarrow> Inr (flush_write s1))
      else Inr s)"

text \<open>
  Lines 565 to 651 for one range reading \<open>(date_time, distance)\<close> returned by \<open>sonic\<close>:
  the tone is set (lines 567 to 571), the row recorded, the buffer flushed when full.
  Lines 574 to 614 between them start and stop the buzzer by the distance and the beep
  timer; they touch neither the buffer, the file nor the console and are left out with
  the timers.
\<close>

definition range_reading :: "string \<Rightarrow> real \<Rightarrow> session \<Rightarrow> py_error + session" where
  "range_reading date_time distance s =
     (case set_tone distance (buzz s) of
        Inl e \<Rightarrow> Inl e
      | Inr (freq, buzz1) \<Rightarrow>
          flush_if_full (record_range date_time distance freq (s\<lparr>buzz := buzz1\<rparr>)))"

text \<open>
  The rearrangement that the end of a session and the interrupt handler share (lines 657
  to 660 and 675 to 678): the three columns selected, the rows sorted, \<open>reset_index\<close>, and
  the first column, which now is the index, dropped.
\<close>

definition reformat :: "frame \<Rightarrow> py_error + frame" where
  "reformat d =
     (case select_cols COLS d of
        Inl e \<Rightarrow> Inl e
      | Inr d1 \<Rightarrow>
          (case sort_values ''Date and Time'' d1 of
             Inl e \<Rightarrow> Inl e
           | Inr d2 \<Rightarrow> drop_first_column (reset_index d2)))"


text \<open>
  Lines 669 to 684, the handler of \<open>KeyboardInterrupt\<close> in \<open>run_mode\<close>, run in the state
  the interrupt found.
\<close>

definition on_interrupt :: "session \<Rightarrow> py_error + session" where
  "on_interrupt s =
     (let s1 = s\<lparr>printed := printed s @ [Msg ''Run_mode() stopped by User'']\<rparr> in
      if record_flag s1
      then (let s2 = s1\<lparr>printed := printed s1 @ [Msg ''Writing buffer...'']\<rparr> in
            case reformat (data s2) of
              Inl e \<Rightarrow> Inl e
            | Inr d \<Rightarrow>
                Inr (s2\<lparr>data := d, csv_file := to_csv d False (csv_file s2),
                        printed := printed s2 @
                          [Msg (''Stopped recording data to '' @ filename s2 @ ''...'')]\<rparr>))
      else Inr s1)"

text \<open>
  The readings of a session in the order the sampling loop takes them, and the session
  run over them from a state \<open>s\<close>. The first error ends the run.
\<close>

datatype reading = PotReading string real | SonicReading string real

definition take_reading :: "reading \<Rightarrow> session \<Rightarrow> py_error + session" where
  "take_reading r s =
     (case r of
        PotReading date_time pot_value \<Rightarrow> pot_reading date_time pot_value s
      | SonicReading date_time distance \<Rightarrow> range_reading date_time distance s)"

fun sampling :: "reading list \<Rightarrow> session \<Rightarrow> py_error + session" where
  "sampling [] s = Inr s"
| "sampling (r # rs) s =
     (case take_reading r s of Inl e \<Rightarrow> Inl e | Inr s1 \<Rightarrow> sampling rs s1)"

text \<open>
  One session of \<open>run_mode\<close> up to some point of its sampling loop: the start in mode \<open>m\<close>,
  then the readings \<open>rs\<close>.
\<close>

definition run_session :: "int \<Rightarrow> real \<Rightarrow> string \<Rightarrow> reading list \<Rightarrow> py_error + session" where
  "run_session m pot_value fname rs =
     (case session_start m pot_value fname of Inl e \<Rightarrow> Inl e | Inr s0 \<Rightarrow> sampling rs s0)"

section \<open>What the properties of run_mode speak about\<close>

text \<open>The header line of the file, and the rows that the two kinds of reading make.\<close>

definition header_line :: "cell list" where
  "header_line = map Str COLS"

definition pot_row :: "string \<Rightarrow> real \<Rightarrow> cell list" where
  "pot_row date_time pot_value = [Str date_time, Num (py_round2 (pot_value * 100)), Str ''NaN'']"

definition range_row :: "string \<Rightarrow> real \<Rightarrow> cell list" where
  "range_row date_time distance =
     [Str date_time, Str ''NaN'', if distance > 100 then Str ''NaN'' else Num distance]"


text \<open>A row as the program makes it: as above, or both fields marked \<open>'NaN'\<close>.\<close>

definition reading_row :: "cell list \<Rightarrow> bool" where
  "reading_row r \<longleftrightarrow>
     length r = 3 \<and> is_Str (r ! 0) \<and>
     (is_Num (r ! 1) \<and> r ! 2 = Str ''NaN'' \<or>
      r ! 1 = Str ''NaN'' \<and> (is_Num (r ! 2) \<or> r ! 2 = Str ''NaN''))"

text \<open>
  The buffer of a session between two statements of the sampling loop: the three columns
  with rows of readings, or the empty frame that the flush leaves.
\<close>

definition buffer_ok :: "frame \<Rightarrow> bool" where
  "buffer_ok f \<longleftrightarrow>
     f = DataFrame [] \<or> columns f = COLS \<and> list_all (\<lambda>(l, r). reading_row r) (rows f)"

text \<open>The key that \<open>sort_values\<close> sorts the rows of the buffer by.\<close>

definition date_key :: "nat \<times> cell list \<Rightarrow> string" where
  "date_key = (\<lambda>(l, r). str_of (cell_of COLS r ''Date and Time''))"

text \<open>The time stamp of a row (its first cell) and the last two cells of a line.\<close>

definition time_stamp :: "cell list \<Rightarrow> string" where
  "time_stamp r = str_of (hd r)"

definition numeric_fields :: "cell list \<Rightarrow> cell list" where
  "numeric_fields l = drop (length l - 2) l"

text \<open>What is seen of a session from outside: how many rows it holds, what its file holds.\<close>

definition buffered_and_file :: "py_error + session \<Rightarrow> (nat \<times> cell list list) option" where
  "buffered_and_file r =
     (case r of Inl e \<Rightarrow> None | Inr s \<Rightarrow> Some (length (rows (data s)), csv_file s))"

definition buffered_and_file_length :: "py_error + session \<Rightarrow> (nat \<times> nat) option" where
  "buffered_and_file_length r =
     (case r of Inl e \<Rightarrow> None | Inr s \<Rightarrow> Some (length (rows (data s)), length (csv_file s)))"

text \<open>
  The file of a recording session holds the header line once, as its first line. The
  state of a session between two passes of its sampling loop: the buffer is as described
  above, and either the session records and its file has the header once, or it does not
  record and has buffered and written nothing.
\<close>

definition header_once :: "cell list list \<Rightarrow> bool" where
  "header_once fl \<longleftrightarrow> fl \<noteq> [] \<and> hd fl = header_line \<and> header_line \<notin> set (tl fl)"

definition session_inv :: "session \<Rightarrow> bool" where
  "session_inv s \<longleftrightarrow>
     buffer_ok (data s) \<and>
     (if record_flag s then header_once (csv_file s)
      else rows (data s) = [] \<and> csv_file s = [])"

text \<open>
  Sessions to run the functions on: a range reading of 10 cm, one of 150 cm, a position
  reading and the end of the session after a run.
\<close>

definition range_10 :: reading where
  "range_10 = SonicReading ''2023-04-12 10:00:00.100'' 10"


definition pot_30 :: reading where
  "pot_30 = PotReading ''2023-04-12 10:00:00.150'' (3/10)"


section \<open>Properties of frequency and get_color\<close>

lemmas tone_consts = MIN_DIST_def MAX_DIST_def MIN_FREQ_def MAX_FREQ_def

text \<open>
  Claim C1. For every distance \<open>d\<close>: beyond 20 the frequency is \<open>None\<close>; below 4 it is 2000;
  from 4 to 20 it is \<open>2000 - (d - 4) / (20 - 4) * (2000 - 100)\<close>, which is 2000 at 4 and 100
  at 20, and it does not increase as \<open>d\<close> increases over that range.
\<close>

theorem frequency_piecewise:
  "(d > 20 \<longrightarrow> frequency d = Inr None) \<and>
   (d < 4 \<longrightarrow> frequency d = Inr (Some 2000)) \<and>
   (4 \<le> d \<and> d \<le> 20 \<longrightarrow>
      frequency d = Inr (Some (2000 - (d - 4) / (20 - 4) * (2000 - 100)))) \<and>
   frequency 4 = Inr (Some 2000) \<and> frequency 20 = Inr (Some 100) \<and>
   (\<forall>d'. 4 \<le> d \<and> d \<le> d' \<and> d' \<le> 20 \<longrightarrow>
      (\<exists>f f'. frequency d = Inr (Some f) \<and> frequency d' = Inr (Some f') \<and> f' \<le> f))"
  by (auto simp: frequency_def tone_consts Let_def divide_right_mono)

theorem frequency_piecewise_witness:
  "(21::real) > 20 \<and> frequency 21 = Inr None \<and>
   (3::real) < 4 \<and> frequency 3 = Inr (Some 2000) \<and>
   (4::real) \<le> 12 \<and> (12::real) \<le> 20 \<and> frequency 12 = Inr (Some 1050) \<and>
   frequency 4 = Inr (Some 2000) \<and> frequency 20 = Inr (Some 100)"
  using frequency_piecewise [of 21] frequency_piecewise [of 3] frequency_piecewise [of 12]
  by simp

text \<open>
  Claim C10. For every distance \<open>d\<close>, \<open>frequency d\<close> is \<open>None\<close> or a number from 100 to 2000,
  never 0 and so never false as a truth value; hence \<open>buzzer\<close> and lines 567 to 571 of
  \<open>run_mode\<close>, guarded by \<open>if freq:\<close>, do what they would do guarded by
  \<open>if freq is not None:\<close>.
\<close>

theorem frequency_truthy_guard:
  "(frequency d = Inr None \<or>
    (\<exists>f. frequency d = Inr (Some f) \<and> 100 \<le> f \<and> f \<le> 2000 \<and> f \<noteq> 0 \<and> truthy (Some f))) \<and>
   buzzer d cmds = buzzer_is_not_None d cmds \<and>
   set_tone d cmds = set_tone_is_not_None d cmds"
  by (auto simp: frequency_def tone_consts Let_def buzzer_def buzzer_is_not_None_def
      set_tone_def set_tone_is_not_None_def)

theorem frequency_truthy_guard_witness:
  "frequency 12 = Inr (Some 1050) \<and> truthy (Some 1050) \<and>
   buzzer 12 [] = Inr (Some 1050, [ChangeFrequency 1050, Start 10]) \<and>
   buzzer_is_not_None 12 [] = Inr (Some 1050, [ChangeFrequency 1050, Start 10]) \<and>
   buzzer 25 [] = Inr (None, [Start 10]) \<and>
   set_tone 25 [] = set_tone_is_not_None 25 []"
  using frequency_truthy_guard [of 12 "[]"] frequency_truthy_guard [of 25 "[]"]
  by (simp add: frequency_def tone_consts Let_def buzzer_def DUTY_CYCLE_def)



text \<open>
  Claim C7. For every percentage \<open>p\<close> from 0 to 100, \<open>get_color p\<close> is decided by one of its
  first five branches: the branch guarded by \<open>percent > 5/6\<close> is not the one taken, the
  function with that branch deleted returns the same value, and the value is a colour,
  not an error.
\<close>

theorem get_color_sixth_branch_unused:
  "0 \<le> p \<Longrightarrow> p \<le> 100 \<Longrightarrow>
     get_color_branch p \<in> {Some 1, Some 2, Some 3, Some 4, Some 5} \<and>
     get_color_branch p \<noteq> Some 6 \<and>
     get_color p = get_color_five p \<and>
     \<not> isl (get_color p)"
  by (auto simp: get_color_def get_color_branch_def get_color_five_def VIOLET_RATIO_def Let_def)

theorem get_color_sixth_branch_unused_witness:
  "(0::real) \<le> 100 \<and> (100::real) \<le> 100 \<and> get_color_branch 100 = Some 5 \<and>
   get_color 100 = get_color_five 100 \<and> \<not> isl (get_color 100)"
  using get_color_sixth_branch_unused [of 100]
  by (simp add: get_color_branch_def get_color_def get_color_five_def VIOLET_RATIO_def Let_def)

section \<open>Properties of sonic\<close>

lemma echo_wait_exit:
  "shared_mode (env i) \<noteq> old \<Longrightarrow> echo_wait level env old i p = Some (Suc i, p)"
  by (subst echo_wait.simps) simp

lemma pulse_loop_exit:
  "shared_mode (env i) \<noteq> old \<Longrightarrow> pulse_loop env old i ps pe pd = Some (Suc i, pd)"
  by (subst pulse_loop.simps) simp

lemma echo_wait_returns:
  assumes "shared_mode (env k) \<noteq> old" and "i \<le> k"
  shows "\<exists>j p'. echo_wait level env old i p = Some (j, p') \<and> Suc i \<le> j \<and> j \<le> Suc k"
  using assms(2)
proof (induction "k - i" arbitrary: i p)
  case 0
  then have "i = k" by simp
  then show ?case using assms(1) by (simp add: echo_wait_exit)
next
  case (Suc n)
  show ?case
  proof (cases "echo (env i) = level \<and> shared_mode (env i) = old")
    case False
    then show ?thesis using Suc.prems by (subst echo_wait.simps) auto
  next
    case True
    have n: "n = k - Suc i" and le: "Suc i \<le> k" using Suc.hyps(2) by simp_all
    from Suc.hyps(1)[OF n le, of "clock (env i)"]
    obtain j p' where "echo_wait level env old (Suc i) (clock (env i)) = Some (j, p')"
      "Suc (Suc i) \<le> j" "j \<le> Suc k" by blast
    then show ?thesis using True by (subst echo_wait.simps) auto
  qed
qed

lemma pulse_loop_returns:
  assumes win: "\<forall>j. k \<le> j \<and> j \<le> k + 2 \<longrightarrow> shared_mode (env j) \<noteq> old"
    and "i \<le> k + 2"
  shows "\<exists>j d. pulse_loop env old i ps pe pd = Some (j, d) \<and> j \<le> k + 3"
  using assms(2)
proof (induction "k + 3 - i" arbitrary: i ps pe pd rule: less_induct)
  case less
  show ?case
  proof (cases "pd \<le> 0 \<and> shared_mode (env i) = old")
    case False
    then show ?thesis using less.prems by (subst pulse_loop.simps) auto
  next
    case True
    have "\<not> k \<le> i" using True win less.prems by auto
    then have ik: "Suc i \<le> k" by simp
    have k0: "shared_mode (env k) \<noteq> old" using win by simp
    obtain i1 ps1 where w1: "echo_wait 0 env old (Suc i) ps = Some (i1, ps1)"
      "Suc (Suc i) \<le> i1" "i1 \<le> Suc k"
      using echo_wait_returns[of env k old "Suc i" 0 ps] k0 ik by blast
    have "\<exists>i2 pe1. echo_wait 1 env old i1 pe = Some (i2, pe1) \<and> Suc i1 \<le> i2 \<and> i2 \<le> k + 2"
    proof (cases "i1 \<le> k")
      case True
      then show ?thesis using echo_wait_returns[of env k old i1 1 pe] k0 by fastforce
    next
      case False
      then have "i1 = Suc k" using w1(3) by simp
      moreover have "shared_mode (env (Suc k)) \<noteq> old" using win by simp
      ultimately show ?thesis by (simp add: echo_wait_exit)
    qed
    then obtain i2 pe1 where w2: "echo_wait 1 env old i1 pe = Some (i2, pe1)"
      "Suc i1 \<le> i2" "i2 \<le> k + 2" by blast
    have "k + 3 - i2 < k + 3 - i" using ik w1 w2 by linarith
    from less.hyps[OF this w2(3), of ps1 pe1 "(pe1 - ps1) * 1000000"]
    obtain j d where r: "pulse_loop env old i2 ps1 pe1 ((pe1 - ps1) * 1000000) = Some (j, d)"
      "j \<le> k + 3" by blast
    then show ?thesis using True w1 w2 by (subst pulse_loop.simps) auto
  qed
qed

lemma sonic_returns:
  assumes "\<forall>j. k \<le> j \<and> j \<le> k + 2 \<longrightarrow> shared_mode (env j) \<noteq> shared_mode (env i0)"
    and "i0 \<le> k"
  shows "\<exists>n dtime distance. sonic env i0 = Some (n, dtime, distance) \<and> n \<le> k + 4"
proof -
  have "Suc i0 \<le> k + 2" using assms(2) by simp
  from pulse_loop_returns[of k env "shared_mode (env i0)" "Suc i0" 0 0 "-1"] assms(1) this
  obtain j d where "pulse_loop env (shared_mode (env i0)) (Suc i0) 0 0 (-1) = Some (j, d)"
    "j \<le> k + 3" by blast
  then show ?thesis by (auto simp: sonic_def)
qed

text \<open>
  Claim C8. Every evaluation of a loop condition in \<open>sonic\<close> compares the shared mode with
  the value read at entry: at an observation where they differ, each busy-wait loop and the
  enclosing loop stop at once. Hence, when the shared mode differs from the entry value at
  three observations in a row (numbers \<open>k\<close> to \<open>k + 2\<close>, after entry), \<open>sonic\<close> returns,
  having used no observation after \<open>k + 3\<close>: the measurement is not continued.
\<close>

theorem sonic_abandons_on_mode_change:
  "(shared_mode (env i) \<noteq> old \<longrightarrow> echo_wait level env old i p = Some (Suc i, p)) \<and>
   (shared_mode (env i) \<noteq> old \<longrightarrow> pulse_loop env old i ps pe pd = Some (Suc i, pd)) \<and>
   (i0 \<le> k \<and> (\<forall>j. k \<le> j \<and> j \<le> k + 2 \<longrightarrow> shared_mode (env j) \<noteq> shared_mode (env i0)) \<longrightarrow>
      (\<exists>n dtime distance. sonic env i0 = Some (n, dtime, distance) \<and> n \<le> k + 4))"
  using echo_wait_exit [of env i old level p] pulse_loop_exit [of env i old ps pe pd]
    sonic_returns [of k env i0]
  by blast

theorem sonic_abandons_on_mode_change_witness:
  "shared_mode (env_change_at_5 5) \<noteq> 1 \<and>
   echo_wait 0 env_change_at_5 1 5 0 = Some (6, 0) \<and>
   pulse_loop env_change_at_5 1 5 0 0 (- 1) = Some (6, - 1) \<and>
   (0::nat) \<le> 5 \<and>
   shared_mode (env_change_at_5 0) = 1 \<and>
   shared_mode (env_change_at_5 5) = 2 \<and> shared_mode (env_change_at_5 6) = 2 \<and>
   shared_mode (env_change_at_5 7) = 2 \<and>
   sonic env_change_at_5 0 = Some (9, 8, - 50632.91)"
  using sonic_abandons_on_mode_change [of env_change_at_5 5 1 0 0 0 0 "- 1" 0 5]
  by (simp add: sonic_def pulse_loop.simps echo_wait.simps env_change_at_5_def py_round2_def
      ULTRASONIC_CONVERSION_def Let_def)

section \<open>Properties of get_mode\<close>

lemma polls_mono:
  assumes "polls \<delta> btn env" and "i \<le> j"
  shows "time_now (env i) \<le> time_now (env j)"
  using assms(2)
proof (induction j)
  case 0
  then show ?case by simp
next
  case (Suc j)
  have "time_now (env j) < time_now (env (j + 1))" using assms(1) by (simp add: polls_def)
  then show ?case using Suc by (cases "i = Suc j") auto
qed

lemma polls_less_index:
  assumes "polls \<delta> btn env" and "time_now (env i) < time_now (env j)"
  shows "i < j"
  using polls_mono[OF assms(1), of j i] assms(2) by (cases "i < j") auto

lemma poll_sees:
  assumes P: "polls \<delta> btn env"
    and start: "time_now (env i) < a + \<delta>"
    and before: "\<forall>t. time_now (env i) \<le> t \<and> t < a \<longrightarrow> btn t \<noteq> want"
    and after: "\<forall>t. a \<le> t \<and> t < a + \<delta> \<longrightarrow> btn t = want"
    and window: "a + \<delta> \<le> t0 + limit"
  shows "\<exists>m. poll_until env t0 limit want i = Some (Seen m) \<and> i \<le> m \<and>
             a \<le> time_now (env m) \<and> time_now (env m) < a + \<delta>"
proof -
  obtain N where N: "a < time_now (env N)" using P by (auto simp: polls_def)
  show ?thesis using start before
  proof (induction "N - i" arbitrary: i rule: less_induct)
    case less
    have obs: "is_pressed (env i) = btn (time_now (env i))" using P by (simp add: polls_def)
    show ?case
    proof (cases "a \<le> time_now (env i)")
      case True
      then have "btn (time_now (env i)) = want" using after less.prems(1) by simp
      moreover have "time_now (env i) - t0 \<le> limit" using less.prems(1) window by simp
      ultimately show ?thesis using True less.prems(1) obs
        by (subst poll_until.simps) auto
    next
      case False
      then have lt: "time_now (env i) < a" by simp
      then have ne: "btn (time_now (env i)) \<noteq> want" using less.prems(2) by simp
      have w: "time_now (env i) - t0 \<le> limit" using less.prems(1) window by simp
      have "i < N" using polls_less_index[OF P, of i N] lt N by simp
      then have m: "N - (i + 1) < N - i" by simp
      have step: "time_now (env i) < time_now (env (i + 1))"
        "time_now (env (i + 1)) \<le> time_now (env i) + \<delta>" using P by (simp_all add: polls_def)
      have s1: "time_now (env (i + 1)) < a + \<delta>" using step lt by simp
      have s2: "\<forall>t. time_now (env (i + 1)) \<le> t \<and> t < a \<longrightarrow> btn t \<noteq> want"
        using less.prems(2) step by auto
      from less.hyps[OF m s1 s2] obtain m where
        "poll_until env t0 limit want (i + 1) = Some (Seen m)" "i + 1 \<le> m"
        "a \<le> time_now (env m)" "time_now (env m) < a + \<delta>" by blast
      then show ?thesis using ne w obs by (subst poll_until.simps) auto
    qed
  qed
qed

lemma poll_expires:
  assumes P: "polls \<delta> btn env"
    and never: "\<forall>t. time_now (env i) \<le> t \<and> t \<le> t0 + limit \<longrightarrow> btn t \<noteq> want"
  shows "\<exists>m. poll_until env t0 limit want i = Some (Expired m) \<and> i \<le> m \<and>
             t0 + limit < time_now (env m) \<and>
             time_now (env m) \<le> max (time_now (env i)) (t0 + limit + \<delta>)"
proof -
  obtain N where N: "t0 + limit < time_now (env N)" using P by (auto simp: polls_def)
  show ?thesis using never
  proof (induction "N - i" arbitrary: i rule: less_induct)
    case less
    have obs: "is_pressed (env i) = btn (time_now (env i))" using P by (simp add: polls_def)
    show ?case
    proof (cases "time_now (env i) - t0 \<le> limit")
      case False
      then show ?thesis by (subst poll_until.simps) auto
    next
      case True
      then have le: "time_now (env i) \<le> t0 + limit" by simp
      then have ne: "btn (time_now (env i)) \<noteq> want" using less.prems by simp
      have "i < N" using polls_less_index[OF P, of i N] le N by simp
      then have m: "N - (i + 1) < N - i" by simp
      have step: "time_now (env i) < time_now (env (i + 1))"
        "time_now (env (i + 1)) \<le> time_now (env i) + \<delta>" using P by (simp_all add: polls_def)
      have s2: "\<forall>t. time_now (env (i + 1)) \<le> t \<and> t \<le> t0 + limit \<longrightarrow> btn t \<noteq> want"
        using less.prems step by auto
      from less.hyps[OF m s2] obtain m where r:
        "poll_until env t0 limit want (i + 1) = Some (Expired m)" "i + 1 \<le> m"
        "t0 + limit < time_now (env m)"
        "time_now (env m) \<le> max (time_now (env (i + 1))) (t0 + limit + \<delta>)" by blast
      have "time_now (env m) \<le> max (time_now (env i)) (t0 + limit + \<delta>)"
        using r(4) step le by simp
      then show ?thesis using r ne True obs by (subst poll_until.simps) auto
    qed
  qed
qed


lemma polls_facts:
  assumes "polls \<delta> btn env"
  shows "time_now (env i) < time_now (env (i + 1))"
    and "time_now (env (i + 1)) \<le> time_now (env i) + \<delta>"
    and "is_pressed (env i) = btn (time_now (env i))"
  using assms by (simp_all add: polls_def)

lemma first_release:
  assumes P: "polls \<delta> btn env" and d: "\<delta> \<le> 1/5" and T: "T = time_now (env 0)"
    and down: "\<forall>t. T \<le> t \<and> t < T + 3/10 \<longrightarrow> btn t"
    and up: "\<forall>t. T + 3/10 \<le> t \<and> t < T + 5/10 \<longrightarrow> \<not> btn t"
  shows "\<exists>m. poll_until env T RDM_TIME False (0 + 1) = Some (Seen m) \<and>
             T + 3/10 \<le> time_now (env m) \<and> time_now (env m) < T + 3/10 + \<delta>"
proof -
  have s: "T < time_now (env (0 + 1))" "time_now (env (0 + 1)) \<le> T + \<delta>"
    using polls_facts(1,2)[OF P, of 0] T by simp_all
  have "\<exists>m. poll_until env T RDM_TIME False (0 + 1) = Some (Seen m) \<and> 0 + 1 \<le> m \<and>
             T + 3/10 \<le> time_now (env m) \<and> time_now (env m) < T + 3/10 + \<delta>"
  proof (rule poll_sees[OF P])
    show "time_now (env (0 + 1)) < T + 3/10 + \<delta>" using s by simp
    show "\<forall>t. time_now (env (0 + 1)) \<le> t \<and> t < T + 3/10 \<longrightarrow> btn t \<noteq> False"
      using down s by auto
    show "\<forall>t. T + 3/10 \<le> t \<and> t < T + 3/10 + \<delta> \<longrightarrow> btn t = False" using up d by auto
    show "T + 3/10 + \<delta> \<le> T + RDM_TIME" using d by (simp add: RDM_TIME_def)
  qed
  then show ?thesis by blast
qed

lemma entry_pressed:
  assumes P: "polls \<delta> btn env" and T: "T = time_now (env 0)"
    and down: "\<forall>t. T \<le> t \<and> t < T + b \<longrightarrow> btn t" and "0 < b"
  shows "is_pressed (env 0)"
  using polls_facts(3)[OF P, of 0] T down assms(4) by simp

lemma single_click:
  assumes P: "polls \<delta> btn env" and d: "\<delta> \<le> 1/5" and T: "T = time_now (env 0)"
    and down: "\<forall>t. T \<le> t \<and> t < T + 3/10 \<longrightarrow> btn t"
    and up: "\<forall>t. T + 3/10 \<le> t \<and> t \<le> T + 1 \<longrightarrow> \<not> btn t"
  shows "\<exists>n. get_mode env (- 1) 0 s = Some (n, to_MS s)"
proof -
  have e: "is_pressed (env 0)" using entry_pressed[OF P T down] by simp
  have up': "\<forall>t. T + 3/10 \<le> t \<and> t < T + 5/10 \<longrightarrow> \<not> btn t" using up by auto
  obtain m1 where m1: "poll_until env T RDM_TIME False (0 + 1) = Some (Seen m1)"
    "T + 3/10 \<le> time_now (env m1)" using first_release[OF P d T down up'] by blast
  have "\<exists>m. poll_until env T RDM_TIME True (m1 + 1) = Some (Expired m) \<and> m1 + 1 \<le> m \<and>
             T + RDM_TIME < time_now (env m) \<and>
             time_now (env m) \<le> max (time_now (env (m1 + 1))) (T + RDM_TIME + \<delta>)"
  proof (rule poll_expires[OF P])
    show "\<forall>t. time_now (env (m1 + 1)) \<le> t \<and> t \<le> T + RDM_TIME \<longrightarrow> btn t \<noteq> True"
      using up m1(2) polls_facts(1)[OF P, of m1] by (auto simp: RDM_TIME_def)
  qed
  then obtain m2 where m2: "poll_until env T RDM_TIME True (m1 + 1) = Some (Expired m2)" by blast
  show ?thesis using e m1(1) m2 T by (subst get_mode.simps) simp
qed

lemma double_click:
  assumes P: "polls \<delta> btn env" and d: "\<delta> \<le> 1/5" and T: "T = time_now (env 0)"
    and down1: "\<forall>t. T \<le> t \<and> t < T + 3/10 \<longrightarrow> btn t"
    and up1: "\<forall>t. T + 3/10 \<le> t \<and> t < T + 5/10 \<longrightarrow> \<not> btn t"
    and down2: "\<forall>t. T + 5/10 \<le> t \<and> t < T + 8/10 \<longrightarrow> btn t"
    and up2: "\<forall>t. T + 8/10 \<le> t \<and> t \<le> T + 1 \<longrightarrow> \<not> btn t"
  shows "\<exists>n. get_mode env (- 1) 0 s = Some (n, to_RDM s)"
proof -
  have e: "is_pressed (env 0)" using entry_pressed[OF P T down1] by simp
  obtain m1 where m1: "poll_until env T RDM_TIME False (0 + 1) = Some (Seen m1)"
    "T + 3/10 \<le> time_now (env m1)" "time_now (env m1) < T + 3/10 + \<delta>"
    using first_release[OF P d T down1 up1] by blast
  note s1 = polls_facts(1,2)[OF P, of m1]
  have "\<exists>m. poll_until env T RDM_TIME True (m1 + 1) = Some (Seen m) \<and> m1 + 1 \<le> m \<and>
             T + 5/10 \<le> time_now (env m) \<and> time_now (env m) < T + 5/10 + \<delta>"
  proof (rule poll_sees[OF P])
    show "time_now (env (m1 + 1)) < T + 5/10 + \<delta>" using s1 m1(3) d by simp
    show "\<forall>t. time_now (env (m1 + 1)) \<le> t \<and> t < T + 5/10 \<longrightarrow> btn t \<noteq> True"
      using up1 s1 m1(2) by auto
    show "\<forall>t. T + 5/10 \<le> t \<and> t < T + 5/10 + \<delta> \<longrightarrow> btn t = True" using down2 d by auto
    show "T + 5/10 + \<delta> \<le> T + RDM_TIME" using d by (simp add: RDM_TIME_def)
  qed
  then obtain m2 where m2: "poll_until env T RDM_TIME True (m1 + 1) = Some (Seen m2)"
    "T + 5/10 \<le> time_now (env m2)" "time_now (env m2) < T + 5/10 + \<delta>" by blast
  note s2 = polls_facts(1,2)[OF P, of m2]
  have "\<exists>m. poll_until env T RDM_TIME False (m2 + 1) = Some (Seen m) \<and> m2 + 1 \<le> m \<and>
             T + 8/10 \<le> time_now (env m) \<and> time_now (env m) < T + 8/10 + \<delta>"
  proof (rule poll_sees[OF P])
    show "time_now (env (m2 + 1)) < T + 8/10 + \<delta>" using s2 m2(3) d by simp
    show "\<forall>t. time_now (env (m2 + 1)) \<le> t \<and> t < T + 8/10 \<longrightarrow> btn t \<noteq> False"
      using down2 s2 m2(2) by auto
    show "\<forall>t. T + 8/10 \<le> t \<and> t < T + 8/10 + \<delta> \<longrightarrow> btn t = False" using up2 d by auto
    show "T + 8/10 + \<delta> \<le> T + RDM_TIME" using d by (simp add: RDM_TIME_def)
  qed
  then obtain m3 where m3: "poll_until env T RDM_TIME False (m2 + 1) = Some (Seen m3)" by blast
  show ?thesis using e m1(1) m2(1) m3 T by (subst get_mode.simps) simp
qed

lemma first_expiry:
  assumes P: "polls \<delta> btn env" and T: "T = time_now (env 0)"
    and down: "\<forall>t. T \<le> t \<and> t \<le> T + 1 \<longrightarrow> btn t"
  shows "\<exists>m. poll_until env T RDM_TIME False (0 + 1) = Some (Expired m) \<and>
             T + 1 < time_now (env m) \<and> time_now (env m) \<le> T + 1 + \<delta>"
proof -
  have s: "T < time_now (env (0 + 1))" "time_now (env (0 + 1)) \<le> T + \<delta>"
    using polls_facts(1,2)[OF P, of 0] T by simp_all
  have "\<exists>m. poll_until env T RDM_TIME False (0 + 1) = Some (Expired m) \<and> 0 + 1 \<le> m \<and>
             T + RDM_TIME < time_now (env m) \<and>
             time_now (env m) \<le> max (time_now (env (0 + 1))) (T + RDM_TIME + \<delta>)"
  proof (rule poll_expires[OF P])
    show "\<forall>t. time_now (env (0 + 1)) \<le> t \<and> t \<le> T + RDM_TIME \<longrightarrow> btn t \<noteq> False"
      using down s by (auto simp: RDM_TIME_def)
  qed
  then show ?thesis using s by (auto simp: RDM_TIME_def)
qed

lemma long_hold:
  assumes P: "polls \<delta> btn env" and T: "T = time_now (env 0)"
    and down: "\<forall>t. T \<le> t \<and> t < T + 25/10 \<longrightarrow> btn t"
  shows "\<exists>n. get_mode env (- 1) 0 s = Some (n, to_ORD s)"
proof -
  have e: "is_pressed (env 0)" using entry_pressed[OF P T down] by simp
  have down': "\<forall>t. T \<le> t \<and> t \<le> T + 1 \<longrightarrow> btn t" using down by auto
  obtain m1 where m1: "poll_until env T RDM_TIME False (0 + 1) = Some (Expired m1)"
    "T + 1 < time_now (env m1)" using first_expiry[OF P T down'] by blast
  have "\<exists>m. poll_until env T ORD_TIME False (m1 + 1) = Some (Expired m) \<and> m1 + 1 \<le> m \<and>
             T + ORD_TIME < time_now (env m) \<and>
             time_now (env m) \<le> max (time_now (env (m1 + 1))) (T + ORD_TIME + \<delta>)"
  proof (rule poll_expires[OF P])
    show "\<forall>t. time_now (env (m1 + 1)) \<le> t \<and> t \<le> T + ORD_TIME \<longrightarrow> btn t \<noteq> False"
      using down m1(2) polls_facts(1)[OF P, of m1] by (auto simp: ORD_TIME_def)
  qed
  then obtain m4 where m4: "poll_until env T ORD_TIME False (m1 + 1) = Some (Expired m4)" by blast
  show ?thesis using e m1(1) m4 T by (subst get_mode.simps) simp
qed

lemma medium_hold:
  assumes P: "polls \<delta> btn env" and d: "\<delta> \<le> 1/5" and T: "T = time_now (env 0)"
    and down: "\<forall>t. T \<le> t \<and> t < T + 15/10 \<longrightarrow> btn t"
    and up: "\<forall>t. T + 15/10 \<le> t \<and> t \<le> T + 2 \<longrightarrow> \<not> btn t"
  shows "\<exists>n. get_mode env (- 1) 0 s = Some (n, to_MS s)"
proof -
  have e: "is_pressed (env 0)" using entry_pressed[OF P T down] by simp
  have down': "\<forall>t. T \<le> t \<and> t \<le> T + 1 \<longrightarrow> btn t" using down by auto
  obtain m1 where m1: "poll_until env T RDM_TIME False (0 + 1) = Some (Expired m1)"
    "T + 1 < time_now (env m1)" "time_now (env m1) \<le> T + 1 + \<delta>"
    using first_expiry[OF P T down'] by blast
  note s1 = polls_facts(1,2)[OF P, of m1]
  have "\<exists>m. poll_until env T ORD_TIME False (m1 + 1) = Some (Seen m) \<and> m1 + 1 \<le> m \<and>
             T + 15/10 \<le> time_now (env m) \<and> time_now (env m) < T + 15/10 + \<delta>"
  proof (rule poll_sees[OF P])
    show "time_now (env (m1 + 1)) < T + 15/10 + \<delta>" using s1 m1(3) d by simp
    show "\<forall>t. time_now (env (m1 + 1)) \<le> t \<and> t < T + 15/10 \<longrightarrow> btn t \<noteq> False"
      using down s1 m1(2) by auto
    show "\<forall>t. T + 15/10 \<le> t \<and> t < T + 15/10 + \<delta> \<longrightarrow> btn t = False" using up d by auto
    show "T + 15/10 + \<delta> \<le> T + ORD_TIME" using d by (simp add: ORD_TIME_def)
  qed
  then obtain m4 where m4: "poll_until env T ORD_TIME False (m1 + 1) = Some (Seen m4)" by blast
  show ?thesis using e m1(1) m4 T by (subst get_mode.simps) simp
qed

lemma polls_sample: "0 < dt \<Longrightarrow> polls dt btn (sample dt btn)"
proof -
  assume dt: "0 < dt"
  have "\<exists>i. T < real i * dt" for T
  proof -
    obtain n :: nat where "T / dt < real n" using reals_Archimedean2 by blast
    then have "T < real n * dt" using dt by (simp add: pos_divide_less_eq)
    then show ?thesis by blast
  qed
  then show ?thesis using dt by (simp add: polls_def sample_def algebra_simps)
qed

lemma mode_after [simp]:
  "mode (to_MS s) = MS_MODE" "mode (to_RDM s) = RDM_MODE" "mode (to_ORD s) = ORD_MODE"
  by (simp_all add: to_MS_def to_RDM_def to_ORD_def)

text \<open>
  Claim C2. In every run of \<open>get_mode\<close> entered at a press (at time \<open>T\<close>, with \<open>t0\<close> not
  yet set), whatever the mode before, when the button is polled at least every 0.2 s:
  a press released at 0.3 s and not pressed again within the 1 s window leaves the mode MS;
  a press held to 2.5 s leaves it ORD; a press released at 0.3 s, pressed again at 0.5 s
  and released at 0.8 s leaves it RDM; a press held to 1.5 s and then released leaves it MS.
  In each case the function returns.
\<close>

theorem get_mode_gestures:
  assumes "polls \<delta> btn env" and "\<delta> \<le> 1/5" and "T = time_now (env 0)"
  shows
    "((\<forall>t. T \<le> t \<and> t < T + 3/10 \<longrightarrow> btn t) \<and> (\<forall>t. T + 3/10 \<le> t \<and> t \<le> T + 1 \<longrightarrow> \<not> btn t) \<longrightarrow>
        (\<exists>n s'. get_mode env (- 1) 0 s = Some (n, s') \<and> mode s' = MS_MODE)) \<and>
     ((\<forall>t. T \<le> t \<and> t < T + 25/10 \<longrightarrow> btn t) \<longrightarrow>
        (\<exists>n s'. get_mode env (- 1) 0 s = Some (n, s') \<and> mode s' = ORD_MODE)) \<and>
     ((\<forall>t. T \<le> t \<and> t < T + 3/10 \<longrightarrow> btn t) \<and> (\<forall>t. T + 3/10 \<le> t \<and> t < T + 5/10 \<longrightarrow> \<not> btn t) \<and>
      (\<forall>t. T + 5/10 \<le> t \<and> t < T + 8/10 \<longrightarrow> btn t) \<and> (\<forall>t. T + 8/10 \<le> t \<and> t \<le> T + 1 \<longrightarrow> \<not> btn t) \<longrightarrow>
        (\<exists>n s'. get_mode env (- 1) 0 s = Some (n, s') \<and> mode s' = RDM_MODE)) \<and>
     ((\<forall>t. T \<le> t \<and> t < T + 15/10 \<longrightarrow> btn t) \<and> (\<forall>t. T + 15/10 \<le> t \<and> t \<le> T + 2 \<longrightarrow> \<not> btn t) \<longrightarrow>
        (\<exists>n s'. get_mode env (- 1) 0 s = Some (n, s') \<and> mode s' = MS_MODE))"
proof (intro conjI impI)
  assume "(\<forall>t. T \<le> t \<and> t < T + 3/10 \<longrightarrow> btn t) \<and> (\<forall>t. T + 3/10 \<le> t \<and> t \<le> T + 1 \<longrightarrow> \<not> btn t)"
  then obtain n where "get_mode env (- 1) 0 s = Some (n, to_MS s)"
    using single_click[OF assms, of s] by blast
  then show "\<exists>n s'. get_mode env (- 1) 0 s = Some (n, s') \<and> mode s' = MS_MODE" by simp
next
  assume "\<forall>t. T \<le> t \<and> t < T + 25/10 \<longrightarrow> btn t"
  then obtain n where "get_mode env (- 1) 0 s = Some (n, to_ORD s)"
    using long_hold[OF assms(1,3), of s] by blast
  then show "\<exists>n s'. get_mode env (- 1) 0 s = Some (n, s') \<and> mode s' = ORD_MODE" by simp
next
  assume "(\<forall>t. T \<le> t \<and> t < T + 3/10 \<longrightarrow> btn t) \<and> (\<forall>t. T + 3/10 \<le> t \<and> t < T + 5/10 \<longrightarrow> \<not> btn t) \<and>
      (\<forall>t. T + 5/10 \<le> t \<and> t < T + 8/10 \<longrightarrow> btn t) \<and> (\<forall>t. T + 8/10 \<le> t \<and> t \<le> T + 1 \<longrightarrow> \<not> btn t)"
  then obtain n where "get_mode env (- 1) 0 s = Some (n, to_RDM s)"
    using double_click[OF assms, of s] by blast
  then show "\<exists>n s'. get_mode env (- 1) 0 s = Some (n, s') \<and> mode s' = RDM_MODE" by simp
next
  assume "(\<forall>t. T \<le> t \<and> t < T + 15/10 \<longrightarrow> btn t) \<and> (\<forall>t. T + 15/10 \<le> t \<and> t \<le> T + 2 \<longrightarrow> \<not> btn t)"
  then obtain n where "get_mode env (- 1) 0 s = Some (n, to_MS s)"
    using medium_hold[OF assms, of s] by blast
  then show "\<exists>n s'. get_mode env (- 1) 0 s = Some (n, s') \<and> mode s' = MS_MODE" by simp
qed

theorem get_mode_gestures_witness:
  "polls (1/10) click_once (sample (1/10) click_once) \<and>
   (\<exists>n s'. get_mode (sample (1/10) click_once) (- 1) 0 (sys_in_mode ORD_MODE) = Some (n, s') \<and>
      mode s' = MS_MODE) \<and>
   polls (1/10) hold_2500 (sample (1/10) hold_2500) \<and>
   (\<exists>n s'. get_mode (sample (1/10) hold_2500) (- 1) 0 (sys_in_mode MS_MODE) = Some (n, s') \<and>
      mode s' = ORD_MODE) \<and>
   polls (1/10) double_click (sample (1/10) double_click) \<and>
   (\<exists>n s'. get_mode (sample (1/10) double_click) (- 1) 0 (sys_in_mode MS_MODE) = Some (n, s') \<and>
      mode s' = RDM_MODE) \<and>
   polls (1/10) hold_1500 (sample (1/10) hold_1500) \<and>
   (\<exists>n s'. get_mode (sample (1/10) hold_1500) (- 1) 0 (sys_in_mode RDM_MODE) = Some (n, s') \<and>
      mode s' = MS_MODE)"
proof -
  have P: "polls (1/10) b (sample (1/10) b)" for b by (rule polls_sample) simp
  have T: "0 = time_now (sample (1/10) b 0)" for b by (simp add: sample_def)
  have d: "(1/10 :: real) \<le> 1/5" by simp
  note g = get_mode_gestures [OF P d T]
  have h1: "(\<forall>t. (0::real) \<le> t \<and> t < 0 + 3/10 \<longrightarrow> click_once t) \<and>
      (\<forall>t. (0::real) + 3/10 \<le> t \<and> t \<le> 0 + 1 \<longrightarrow> \<not> click_once t)"
    by (simp add: click_once_def)
  have h2: "\<forall>t. (0::real) \<le> t \<and> t < 0 + 25/10 \<longrightarrow> hold_2500 t"
    by (simp add: hold_2500_def)
  have h3: "(\<forall>t. (0::real) \<le> t \<and> t < 0 + 3/10 \<longrightarrow> double_click t) \<and>
      (\<forall>t. (0::real) + 3/10 \<le> t \<and> t < 0 + 5/10 \<longrightarrow> \<not> double_click t) \<and>
      (\<forall>t. (0::real) + 5/10 \<le> t \<and> t < 0 + 8/10 \<longrightarrow> double_click t) \<and>
      (\<forall>t. (0::real) + 8/10 \<le> t \<and> t \<le> 0 + 1 \<longrightarrow> \<not> double_click t)"
    by (simp add: double_click_def)
  have h4: "(\<forall>t. (0::real) \<le> t \<and> t < 0 + 15/10 \<longrightarrow> hold_1500 t) \<and>
      (\<forall>t. (0::real) + 15/10 \<le> t \<and> t \<le> 0 + 2 \<longrightarrow> \<not> hold_1500 t)"
    by (simp add: hold_1500_def)
  have "\<exists>n s'. get_mode (sample (1/10) click_once) (- 1) 0 (sys_in_mode ORD_MODE) = Some (n, s') \<and>
      mode s' = MS_MODE"
    using g [of click_once "sys_in_mode ORD_MODE"] h1 by blast
  moreover have "\<exists>n s'. get_mode (sample (1/10) hold_2500) (- 1) 0 (sys_in_mode MS_MODE) = Some (n, s') \<and>
      mode s' = ORD_MODE"
    using g [of hold_2500 "sys_in_mode MS_MODE"] h2 by blast
  moreover have "\<exists>n s'. get_mode (sample (1/10) double_click) (- 1) 0 (sys_in_mode MS_MODE) = Some (n, s') \<and>
      mode s' = RDM_MODE"
    using g [of double_click "sys_in_mode MS_MODE"] h3 by blast
  moreover have "\<exists>n s'. get_mode (sample (1/10) hold_1500) (- 1) 0 (sys_in_mode RDM_MODE) = Some (n, s') \<and>
      mode s' = MS_MODE"
    using g [of hold_1500 "sys_in_mode RDM_MODE"] h4 by blast
  ultimately show ?thesis using P by blast
qed

text \<open>
  The four gestures run on the environment that polls every 0.1 s: the values
  \<open>get_mode\<close> computes.
\<close>

lemma get_mode_runs:
  "get_mode (sample (1/10) click_once) (- 1) 0 (sys_in_mode ORD_MODE) =
     Some (12, \<lparr>mode = MS_MODE, console = [''MS mode''], regled = [LedOff]\<rparr>)"
  "get_mode (sample (1/10) hold_2500) (- 1) 0 (sys_in_mode MS_MODE) =
     Some (22, \<lparr>mode = ORD_MODE, console = [''ORD Mode''], regled = [LedBlink]\<rparr>)"
  "get_mode (sample (1/10) double_click) (- 1) 0 (sys_in_mode MS_MODE) =
     Some (9, \<lparr>mode = RDM_MODE, console = [''RDM mode''], regled = [LedOn]\<rparr>)"
  "get_mode (sample (1/10) hold_1500) (- 1) 0 (sys_in_mode RDM_MODE) =
     Some (16, \<lparr>mode = MS_MODE, console = [''MS mode''], regled = [LedOff]\<rparr>)"
  "get_mode (sample (1/10) click_once) (- 1) 0 (sys_in_mode MS_MODE) =
     Some (12, \<lparr>mode = MS_MODE, console = [], regled = []\<rparr>)"
  by (simp_all add: get_mode.simps poll_until.simps sample_def sys_in_mode_def
      click_once_def hold_2500_def double_click_def hold_1500_def
      to_MS_def to_RDM_def to_ORD_def RDM_TIME_def ORD_TIME_def
      MS_MODE_def RDM_MODE_def ORD_MODE_def)

text \<open>
  Claim C4 (the code departs from it). The claim: side effects of a mode change happen only
  when the mode resolved differs from the active one, on every path of \<open>get_mode\<close>. The
  path of lines 430 to 435 has no such test. With MS active, a click followed by a second
  press held past the window prints \<open>MS mode\<close> and switches the LED off although the
  mode was MS and stays MS. With ORD active, the same click followed by a press held for
  more than two seconds resolves to ORD, the active mode, after printing \<open>MS mode\<close> and
  \<open>ORD Mode\<close> and sending two commands to the LED.
\<close>

theorem get_mode_unguarded_restart:
  "get_mode (sample (1/10) tap_then_hold) (- 1) 0 (sys_in_mode MS_MODE) =
     Some (13, \<lparr>mode = MS_MODE, console = [''MS mode''], regled = [LedOff]\<rparr>) \<and>
   get_mode (sample (1/10) tap_then_long_hold) (- 1) 0 (sys_in_mode ORD_MODE) =
     Some (27, \<lparr>mode = ORD_MODE, console = [''MS mode'', ''ORD Mode''],
                regled = [LedOff, LedBlink]\<rparr>)"
  by (simp add: get_mode.simps poll_until.simps sample_def sys_in_mode_def
      tap_then_hold_def tap_then_long_hold_def
      to_MS_def to_ORD_def restart_MS_def RDM_TIME_def ORD_TIME_def
      MS_MODE_def ORD_MODE_def)

section \<open>Properties of run_mode\<close>

lemma length3: "length r = 3 \<Longrightarrow> \<exists>a b c. r = [a, b, c]"
  by (cases r; simp; cases "tl r"; simp; cases "tl (tl r)"; auto)

lemma reading_row_length: "reading_row r \<Longrightarrow> length r = 3"
  by (simp add: reading_row_def)

lemma cells_COLS: "length r = 3 \<Longrightarrow> map (cell_of COLS r) COLS = r"
  by (auto dest!: length3 simp: cell_of_def COLS_def)

lemma cell_date: "length r = 3 \<Longrightarrow> cell_of COLS r ''Date and Time'' = hd r"
  by (auto dest!: length3 simp: cell_of_def COLS_def)

lemma cells_tl_COLS: "length r = 3 \<Longrightarrow> map (cell_of COLS r) (tl COLS) = tl r"
  by (auto dest!: length3 simp: cell_of_def COLS_def)


lemma get_color_not_error: "\<not> isl (get_color p)"
  by (auto simp: get_color_def Let_def)

lemma get_color_total: "\<exists>R G B. get_color p = Inr (R, G, B)"
  using get_color_not_error[of p] by (cases "get_color p") auto

lemma frequency_total: "\<exists>f. frequency d = Inr f"
  by (auto simp: frequency_def Let_def tone_consts)

lemma set_tone_total: "\<exists>f b'. set_tone d b = Inr (f, b')"
  using frequency_total[of d] by (auto simp: set_tone_def Let_def)


lemma date_key_time_stamp: "length r = 3 \<Longrightarrow> date_key (l, r) = time_stamp r"
  by (simp add: date_key_def time_stamp_def cell_date)

lemma frame_eq: "columns f = cs \<Longrightarrow> rows f = rs \<Longrightarrow> f = \<lparr>columns = cs, rows = rs\<rparr>"
  by (cases f) simp

lemma select_COLS:
  assumes "columns f = COLS" and "list_all (\<lambda>(l, r). length r = 3) (rows f)"
  shows "select_cols COLS f = Inr f"
proof -
  have "map (\<lambda>(l, r). (l, map (cell_of COLS r) COLS)) (rows f) = rows f"
    using assms(2) by (intro map_idI) (auto simp: list_all_iff cells_COLS)
  then show ?thesis using assms(1) by (simp add: select_cols_def frame_eq[symmetric])
qed


lemma sort_COLS:
  assumes "columns f = COLS" and "list_all (\<lambda>(l, r). reading_row r) (rows f)"
  shows "sort_values ''Date and Time'' f = Inr (f\<lparr>rows := sort_key date_key (rows f)\<rparr>)"
proof -
  have "is_Str (cell_of COLS r ''Date and Time'')" if "(l, r) \<in> set (rows f)" for l r
  proof -
    have rr: "reading_row r" using assms(2) that by (auto simp: list_all_iff)
    then have "length r = 3" by (rule reading_row_length)
    then have "cell_of COLS r ''Date and Time'' = hd r" by (rule cell_date)
    moreover have "is_Str (hd r)" using rr by (cases r) (auto simp: reading_row_def)
    ultimately show ?thesis by simp
  qed
  then have "\<not> (\<exists>(l, r) \<in> set (rows f). \<not> is_Str (cell_of (columns f) r ''Date and Time''))"
    using assms(1) by auto
  moreover have "''Date and Time'' \<in> set (columns f)" using assms(1) by (simp add: COLS_def)
  ultimately show ?thesis using assms(1) by (simp add: sort_values_def date_key_def)
qed

lemma drop_first_COLS:
  assumes "columns f = COLS" and "list_all (\<lambda>(l, r). length r = 3) (rows f)"
  shows "drop_first_column f = Inr \<lparr>columns = tl COLS, rows = map (\<lambda>(l, r). (l, tl r)) (rows f)\<rparr>"
proof -
  have "map (\<lambda>(l, r). (l, map (cell_of COLS r) (tl COLS))) (rows f) = map (\<lambda>(l, r). (l, tl r)) (rows f)"
    using assms(2) by (intro map_cong) (auto simp: list_all_iff cells_tl_COLS)
  moreover have "set (tl COLS) \<subseteq> set COLS" by (simp add: COLS_def)
  ultimately show ?thesis using assms(1) by (simp add: drop_first_column_def select_cols_def)
qed


lemma rows3: "list_all (\<lambda>(l, r). reading_row r) rs \<Longrightarrow> list_all (\<lambda>(l, r). length r = 3) rs"
  by (auto simp: list_all_iff reading_row_length)

lemma list_all_sort_key: "list_all P (sort_key k xs) = list_all P xs"
  by (simp add: list_all_iff)



lemma concat_row:
  assumes "buffer_ok a" and "length r = 3"
  shows "columns (concat_frames a (from_dict COLS r)) = COLS \<and>
         map snd (rows (concat_frames a (from_dict COLS r))) = map snd (rows a) @ [r]"
proof (cases "a = DataFrame []")
  case True
  then show ?thesis using assms(2)
    by (simp add: concat_frames_def from_dict_def DataFrame_def Let_def cells_COLS)
next
  case False
  then have c: "columns a = COLS" and rs: "list_all (\<lambda>(l, r). reading_row r) (rows a)"
    using assms(1) by (simp_all add: buffer_ok_def)
  have "map (\<lambda>(l, r). map (cell_of COLS r) COLS) (rows a) = map snd (rows a)"
    using rows3[OF rs] by (intro map_cong) (auto simp: list_all_iff cells_COLS)
  then show ?thesis using c assms(2)
    by (simp add: concat_frames_def from_dict_def Let_def cells_COLS)
qed


lemma pot_row_ok: "reading_row (pot_row dt v)"
  by (simp add: reading_row_def pot_row_def)

lemma range_row_ok: "reading_row (range_row dt d)"
  by (simp add: reading_row_def range_row_def)

lemma rows_all: "list_all (\<lambda>(l, r). P r) rs = list_all P (map snd rs)"
  by (induction rs) auto

lemma buffer_ok_COLS:
  "columns f = COLS \<Longrightarrow> list_all reading_row (map snd (rows f)) \<Longrightarrow> buffer_ok f"
  by (simp add: buffer_ok_def rows_all)

lemma buffer_ok_rows: "buffer_ok f \<Longrightarrow> list_all reading_row (map snd (rows f))"
  by (auto simp: buffer_ok_def rows_all DataFrame_def)

lemma buffer_ok_append:
  assumes "buffer_ok a" and "reading_row r"
  shows "buffer_ok (concat_frames a (from_dict COLS r))"
    and "columns (concat_frames a (from_dict COLS r)) = COLS"
    and "map snd (rows (concat_frames a (from_dict COLS r))) = map snd (rows a) @ [r]"
proof -
  note c = concat_row[OF assms(1) reading_row_length[OF assms(2)]]
  show "columns (concat_frames a (from_dict COLS r)) = COLS" using c by simp
  show "map snd (rows (concat_frames a (from_dict COLS r))) = map snd (rows a) @ [r]"
    using c by simp
  then show "buffer_ok (concat_frames a (from_dict COLS r))"
    using c buffer_ok_rows[OF assms(1)] assms(2) by (intro buffer_ok_COLS) simp_all
qed

lemma pot_reading_step:
  assumes "buffer_ok (data s)"
  shows "\<exists>s'. pot_reading dt v s = Inr s' \<and> csv_file s' = csv_file s \<and>
           record_flag s' = record_flag s \<and> monitor s' = monitor s \<and>
           filename s' = filename s \<and> buffer_ok (data s') \<and>
           count_list (printed s') (Msg ''Writing buffer...'') =
             count_list (printed s) (Msg ''Writing buffer...'') \<and>
           (if record_flag s
            then map snd (rows (data s')) = map snd (rows (data s)) @ [pot_row dt v]
            else data s' = data s)"
proof -
  obtain R G B where c: "get_color (py_round2 (v * 100)) = Inr (R, G, B)"
    using get_color_total by blast
  note a = buffer_ok_append[OF assms pot_row_ok[of dt v]]
  show ?thesis using c a assms
    by (simp add: pot_reading_def Let_def pot_row_def)
qed

lemma record_range_step:
  assumes "buffer_ok (data s)"
  shows "csv_file (record_range dt d fr s) = csv_file s \<and>
         record_flag (record_range dt d fr s) = record_flag s \<and>
         monitor (record_range dt d fr s) = monitor s \<and>
         filename (record_range dt d fr s) = filename s \<and>
         buffer_ok (data (record_range dt d fr s)) \<and>
         count_list (printed (record_range dt d fr s)) (Msg ''Writing buffer...'') =
           count_list (printed s) (Msg ''Writing buffer...'') \<and>
         (if record_flag s
          then columns (data (record_range dt d fr s)) = COLS \<and>
               map snd (rows (data (record_range dt d fr s))) =
                 map snd (rows (data s)) @ [range_row dt d]
          else data (record_range dt d fr s) = data s)"
proof -
  note a = buffer_ok_append[OF assms range_row_ok[of dt d]]
  show ?thesis using a assms
    by (simp add: record_range_def Let_def range_row_def)
qed

lemma flush_arrange_step:
  assumes "columns (data s) = COLS" and "list_all (\<lambda>(l, r). reading_row r) (rows (data s))"
  shows "flush_arrange s =
     Inr (s\<lparr>printed := printed s @ [Msg ''Writing buffer...''],
            data := \<lparr>columns = tl COLS,
                     rows = map (\<lambda>(l, r). (l, tl r)) (sort_key date_key (rows (data s)))\<rparr>\<rparr>)"
proof -
  let ?d2 = "(data s)\<lparr>rows := sort_key date_key (rows (data s))\<rparr>"
  have 1: "select_cols COLS (data s) = Inr (data s)"
    using select_COLS[OF assms(1) rows3[OF assms(2)]] .
  have 2: "sort_values ''Date and Time'' (data s) = Inr ?d2" using sort_COLS[OF assms] .
  have "columns ?d2 = COLS" "list_all (\<lambda>(l, r). length r = 3) (rows ?d2)"
    using assms rows3[OF assms(2)] by (simp_all add: list_all_sort_key)
  from drop_first_COLS[OF this] 1 2 show ?thesis
    by (simp add: flush_arrange_def Let_def)
qed

lemma flush_if_full_step:
  assumes "buffer_ok (data s)"
  shows "\<exists>s'. flush_if_full s = Inr s' \<and> record_flag s' = record_flag s \<and>
           monitor s' = monitor s \<and> filename s' = filename s \<and> buzz s' = buzz s \<and>
           (if length (rows (data s)) > BUFFER_SIZE
            then data s' = DataFrame [] \<and>
                 csv_file s' = csv_file s @ map tl (map snd (sort_key date_key (rows (data s)))) \<and>
                 printed s' = printed s @ [Msg ''Writing buffer...'']
            else s' = s)"
proof (cases "length (rows (data s)) > BUFFER_SIZE")
  case False
  then show ?thesis by (simp add: flush_if_full_def)
next
  case True
  then have "data s \<noteq> DataFrame []" by (auto simp: DataFrame_def)
  then have c: "columns (data s) = COLS" "list_all (\<lambda>(l, r). reading_row r) (rows (data s))"
    using assms by (simp_all add: buffer_ok_def)
  have "map snd (map (\<lambda>(l, r). (l, tl r)) xs) = map tl (map snd xs)" for xs :: "(nat \<times> cell list) list"
    by (induction xs) auto
  then show ?thesis using True flush_arrange_step[OF c]
    by (simp add: flush_if_full_def flush_write_def to_csv_def Let_def)
qed


lemma sorted_rows:
  assumes "list_all (\<lambda>(l, r). length r = 3) xs"
  shows "sorted (map time_stamp (map snd (sort_key date_key xs)))"
proof -
  have "map time_stamp (map snd (sort_key date_key xs)) = map date_key (sort_key date_key xs)"
    using assms by (auto simp: list_all_iff date_key_time_stamp)
  then show ?thesis by (simp only: sorted_sort_key)
qed

lemma mset_sorted_rows: "mset (map snd (sort_key k xs)) = mset (map snd xs)"
  by simp


lemma header_not_tl: "length r = 3 \<Longrightarrow> tl r \<noteq> header_line"
  by (auto dest!: length3 simp: header_line_def COLS_def)

lemma header_once_append:
  "header_once fl \<Longrightarrow> header_line \<notin> set ls \<Longrightarrow> header_once (fl @ ls)"
  by (cases fl) (auto simp: header_once_def)

lemma range_reading_step:
  assumes ok: "buffer_ok (data s)" and rec: "record_flag s"
  shows "\<exists>s'. range_reading dt d s = Inr s' \<and> record_flag s' \<and> monitor s' = monitor s \<and>
           filename s' = filename s \<and> buffer_ok (data s') \<and>
           (if length (rows (data s)) + 1 > BUFFER_SIZE
            then data s' = DataFrame [] \<and>
                 (\<exists>rws. mset rws = mset (map snd (rows (data s)) @ [range_row dt d]) \<and>
                    sorted (map time_stamp rws) \<and> csv_file s' = csv_file s @ map tl rws) \<and>
                 count_list (printed s') (Msg ''Writing buffer...'') =
                   count_list (printed s) (Msg ''Writing buffer...'') + 1
            else csv_file s' = csv_file s \<and>
                 map snd (rows (data s')) = map snd (rows (data s)) @ [range_row dt d] \<and>
                 count_list (printed s') (Msg ''Writing buffer...'') =
                   count_list (printed s) (Msg ''Writing buffer...''))"
proof -
  obtain fr bz where t: "set_tone d (buzz s) = Inr (fr, bz)" using set_tone_total by blast
  define s0 where "s0 = s\<lparr>buzz := bz\<rparr>"
  define s1 where "s1 = record_range dt d fr s0"
  have rr: "range_reading dt d s = flush_if_full s1"
    using t by (simp add: range_reading_def s1_def s0_def)
  have ok0: "buffer_ok (data s0)" using ok by (simp add: s0_def)
  note r = record_range_step[OF ok0, of dt d fr, folded s1_def]
  have r1: "csv_file s1 = csv_file s" "record_flag s1" "monitor s1 = monitor s"
    "filename s1 = filename s" "buffer_ok (data s1)"
    "count_list (printed s1) (Msg ''Writing buffer...'') = count_list (printed s) (Msg ''Writing buffer...'')"
    "map snd (rows (data s1)) = map snd (rows (data s)) @ [range_row dt d]"
    using r rec by (simp_all add: s0_def)
  have len: "length (rows (data s1)) = length (rows (data s)) + 1"
    using arg_cong[OF r1(7), of length] by simp
  from flush_if_full_step[OF r1(5)] obtain s' where f: "flush_if_full s1 = Inr s'"
    "record_flag s' = record_flag s1" "monitor s' = monitor s1" "filename s' = filename s1"
    "if length (rows (data s1)) > BUFFER_SIZE
     then data s' = DataFrame [] \<and>
          csv_file s' = csv_file s1 @ map tl (map snd (sort_key date_key (rows (data s1)))) \<and>
          printed s' = printed s1 @ [Msg ''Writing buffer...'']
     else s' = s1" by blast
  show ?thesis
  proof (cases "length (rows (data s)) + 1 > BUFFER_SIZE")
    case False
    then have "s' = s1" using f(5) len by simp
    then show ?thesis using False rr f(1) r1 by simp
  next
    case True
    then have g: "data s' = DataFrame []"
      "csv_file s' = csv_file s @ map tl (map snd (sort_key date_key (rows (data s1))))"
      "printed s' = printed s1 @ [Msg ''Writing buffer...'']"
      using f(5) len r1(1) by simp_all
    let ?rws = "map snd (sort_key date_key (rows (data s1)))"
    let ?W = "Msg ''Writing buffer...''"
    have "data s1 \<noteq> DataFrame []" using len by (auto simp: DataFrame_def)
    then have "list_all (\<lambda>(l, r). reading_row r) (rows (data s1))"
      using r1(5) by (simp add: buffer_ok_def)
    then have srt: "sorted (map time_stamp ?rws)" using sorted_rows[OF rows3] by blast
    have ms: "mset ?rws = mset (map snd (rows (data s)) @ [range_row dt d])"
      using r1(7) by (simp only: mset_sorted_rows)
    have ex: "\<exists>rws. mset rws = mset (map snd (rows (data s)) @ [range_row dt d]) \<and>
        sorted (map time_stamp rws) \<and> csv_file s' = csv_file s @ map tl rws"
    proof (intro exI conjI)
      show "mset ?rws = mset (map snd (rows (data s)) @ [range_row dt d])" by (rule ms)
      show "sorted (map time_stamp ?rws)" by (rule srt)
      show "csv_file s' = csv_file s @ map tl ?rws" by (rule g(2))
    qed
    have cnt: "count_list (printed s') ?W = count_list (printed s) ?W + 1"
      using g(3) r1(6) by simp
    have branch: "data s' = DataFrame [] \<and>
        (\<exists>rws. mset rws = mset (map snd (rows (data s)) @ [range_row dt d]) \<and>
           sorted (map time_stamp rws) \<and> csv_file s' = csv_file s @ map tl rws) \<and>
        count_list (printed s') ?W = count_list (printed s) ?W + 1"
    proof (intro conjI)
      show "data s' = DataFrame []" by (rule g(1))
      show "\<exists>rws. mset rws = mset (map snd (rows (data s)) @ [range_row dt d]) \<and>
           sorted (map time_stamp rws) \<and> csv_file s' = csv_file s @ map tl rws" by (rule ex)
      show "count_list (printed s') ?W = count_list (printed s) ?W + 1" by (rule cnt)
    qed
    show ?thesis
    proof (intro exI[of _ s'] conjI)
      show "range_reading dt d s = Inr s'" using rr f(1) by simp
      show "record_flag s'" using f(2) r1(2) by simp
      show "monitor s' = monitor s" using f(3) r1(3) by simp
      show "filename s' = filename s" using f(4) r1(4) by simp
      show "buffer_ok (data s')" using g(1) by (simp add: buffer_ok_def)
      show "if length (rows (data s)) + 1 > BUFFER_SIZE
            then data s' = DataFrame [] \<and>
                 (\<exists>rws. mset rws = mset (map snd (rows (data s)) @ [range_row dt d]) \<and>
                    sorted (map time_stamp rws) \<and> csv_file s' = csv_file s @ map tl rws) \<and>
                 count_list (printed s') (Msg ''Writing buffer...'') =
                   count_list (printed s) (Msg ''Writing buffer...'') + 1
            else csv_file s' = csv_file s \<and>
                 map snd (rows (data s')) = map snd (rows (data s)) @ [range_row dt d] \<and>
                 count_list (printed s') (Msg ''Writing buffer...'') =
                   count_list (printed s) (Msg ''Writing buffer...'')"
        using True branch by (simp only: if_True)
    qed
  qed
qed

lemma range_reading_idle:
  assumes "\<not> record_flag s" and "rows (data s) = []"
  shows "\<exists>s'. range_reading dt d s = Inr s' \<and> \<not> record_flag s' \<and> data s' = data s \<and>
           csv_file s' = csv_file s"
proof -
  obtain fr bz where t: "set_tone d (buzz s) = Inr (fr, bz)" using set_tone_total by blast
  show ?thesis using t assms
    by (simp add: range_reading_def record_range_def flush_if_full_def Let_def BUFFER_SIZE_def)
qed

lemma take_reading_inv:
  assumes "session_inv s"
  shows "\<exists>s'. take_reading r s = Inr s' \<and> session_inv s' \<and> record_flag s' = record_flag s"
proof (cases r)
  case (PotReading dt v)
  have ok: "buffer_ok (data s)" using assms by (simp add: session_inv_def)
  from pot_reading_step[OF ok, of dt v] obtain s' where p:
    "pot_reading dt v s = Inr s' \<and> csv_file s' = csv_file s \<and>
     record_flag s' = record_flag s \<and> monitor s' = monitor s \<and>
     filename s' = filename s \<and> buffer_ok (data s') \<and>
     count_list (printed s') (Msg ''Writing buffer...'') =
       count_list (printed s) (Msg ''Writing buffer...'') \<and>
     (if record_flag s
      then map snd (rows (data s')) = map snd (rows (data s)) @ [pot_row dt v]
      else data s' = data s)" ..
  have "session_inv s'"
  proof (cases "record_flag s")
    case True
    then show ?thesis using p assms by (simp add: session_inv_def)
  next
    case False
    then show ?thesis using p assms by (simp add: session_inv_def)
  qed
  then show ?thesis using PotReading p by (simp add: take_reading_def)
next
  case (SonicReading dt d)
  show ?thesis
  proof (cases "record_flag s")
    case False
    then have e: "rows (data s) = []" using assms by (simp add: session_inv_def)
    from range_reading_idle[OF False e, of dt d] obtain s' where p:
      "range_reading dt d s = Inr s' \<and> \<not> record_flag s' \<and> data s' = data s \<and>
       csv_file s' = csv_file s" ..
    then have "session_inv s'" using assms False by (simp add: session_inv_def)
    then show ?thesis using SonicReading p False by (simp add: take_reading_def)
  next
    case True
    have ok: "buffer_ok (data s)" and h: "header_once (csv_file s)"
      using assms True by (simp_all add: session_inv_def)
    from range_reading_step[OF ok True, of dt d] obtain s' where p:
      "range_reading dt d s = Inr s' \<and> record_flag s' \<and> monitor s' = monitor s \<and>
       filename s' = filename s \<and> buffer_ok (data s') \<and>
       (if length (rows (data s)) + 1 > BUFFER_SIZE
        then data s' = DataFrame [] \<and>
             (\<exists>rws. mset rws = mset (map snd (rows (data s)) @ [range_row dt d]) \<and>
                sorted (map time_stamp rws) \<and> csv_file s' = csv_file s @ map tl rws) \<and>
             count_list (printed s') (Msg ''Writing buffer...'') =
               count_list (printed s) (Msg ''Writing buffer...'') + 1
        else csv_file s' = csv_file s \<and>
             map snd (rows (data s')) = map snd (rows (data s)) @ [range_row dt d] \<and>
             count_list (printed s') (Msg ''Writing buffer...'') =
               count_list (printed s) (Msg ''Writing buffer...''))" ..
    have "header_once (csv_file s')"
    proof (cases "length (rows (data s)) + 1 > BUFFER_SIZE")
      case False
      then have "csv_file s' = csv_file s" using p by simp
      then show ?thesis using h by simp
    next
      case True
      then have "\<exists>rws. mset rws = mset (map snd (rows (data s)) @ [range_row dt d]) \<and>
                sorted (map time_stamp rws) \<and> csv_file s' = csv_file s @ map tl rws"
        using p by simp
      then obtain rws where rws: "mset rws = mset (map snd (rows (data s)) @ [range_row dt d])"
        "csv_file s' = csv_file s @ map tl rws" by (elim exE conjE)
      have "set rws = set (map snd (rows (data s)) @ [range_row dt d])"
        using rws(1) by (rule mset_eq_setD)
      moreover have "\<forall>x\<in>set (map snd (rows (data s)) @ [range_row dt d]). reading_row x"
        using buffer_ok_rows[OF ok] range_row_ok[of dt d] by (simp add: list_all_iff)
      ultimately have all: "\<forall>x\<in>set rws. reading_row x" by simp
      have "header_line \<noteq> tl x" if "x \<in> set rws" for x
        using header_not_tl[OF reading_row_length, of x] all that by auto
      then have "header_line \<notin> set (map tl rws)" by auto
      then show ?thesis using rws(2) h by (simp add: header_once_append)
    qed
    then have "session_inv s'" using p by (simp add: session_inv_def)
    then show ?thesis using SonicReading p True by (simp add: take_reading_def)
  qed
qed

lemma sampling_snoc:
  "sampling (rs @ [r]) s = (case sampling rs s of Inl e \<Rightarrow> Inl e | Inr s1 \<Rightarrow> take_reading r s1)"
  by (induction rs arbitrary: s) (auto split: sum.splits)

lemma sampling_inv:
  assumes "session_inv s"
  shows "\<exists>s'. sampling rs s = Inr s' \<and> session_inv s' \<and> record_flag s' = record_flag s"
proof (induction rs rule: rev_induct)
  case Nil
  then show ?case using assms by simp
next
  case (snoc r rs)
  then obtain s1 where s1: "sampling rs s = Inr s1" "session_inv s1"
    "record_flag s1 = record_flag s" by blast
  from take_reading_inv[OF s1(2), of r] show ?case using s1 by (auto simp: sampling_snoc)
qed

lemma session_start_inv:
  "\<exists>s0. session_start m v f = Inr s0 \<and> session_inv s0 \<and>
        (record_flag s0 \<longrightarrow> csv_file s0 = [header_line]) \<and> rows (data s0) = [] \<and>
        record_flag s0 = snd (mode_settings m)"
proof -
  obtain rgb where c: "get_color (py_round2 (v * 100)) = Inr rgb"
    using get_color_total by blast
  obtain mon rc where ms: "mode_settings m = (mon, rc)" by (cases "mode_settings m")
  define s0 where "s0 = \<lparr>monitor = mon, record_flag = rc, filename = f,
                   data = DataFrame COLS,
                   csv_file = (if rc then to_csv (DataFrame COLS) True [] else []),
                   printed = (if rc then [Msg (''Recording data to '' @ f @ ''...'')] else []),
                   rgbled_color = (if mon then Some rgb else None),
                   buzz = [Stop]\<rparr>"
  have s: "session_start m v f = Inr s0"
    using c ms by (simp add: session_start_def Let_def s0_def)
  have h: "to_csv (DataFrame COLS) True [] = [header_line]"
    by (simp add: to_csv_def DataFrame_def header_line_def)
  have 1: "buffer_ok (data s0)" by (simp add: s0_def buffer_ok_def DataFrame_def)
  have 2: "rows (data s0) = []" by (simp add: s0_def DataFrame_def)
  have 3: "record_flag s0 = rc" by (simp add: s0_def)
  have 4: "csv_file s0 = (if rc then [header_line] else [])" using h by (simp add: s0_def)
  have 5: "session_inv s0" using 1 2 3 4 by (simp add: session_inv_def header_once_def)
  show ?thesis using s 2 3 4 5 ms by simp
qed

lemma run_session_inv:
  "\<exists>s. run_session m v f rs = Inr s \<and> session_inv s \<and> record_flag s = snd (mode_settings m)"
proof -
  obtain s0 where s0: "session_start m v f = Inr s0" "session_inv s0"
    "record_flag s0 = snd (mode_settings m)" using session_start_inv by blast
  from sampling_inv[OF s0(2), of rs] show ?thesis using s0 by (auto simp: run_session_def)
qed

lemma run_session_snoc:
  "run_session m v f (rs @ [r]) =
     (case run_session m v f rs of Inl e \<Rightarrow> Inl e | Inr s \<Rightarrow> take_reading r s)"
  by (simp add: run_session_def sampling_snoc split: sum.splits)

lemma sampling_range_fill:
  assumes "session_inv s" and "record_flag s" and "length (rows (data s)) + n \<le> BUFFER_SIZE"
  shows "\<exists>s'. sampling (replicate n (SonicReading dt d)) s = Inr s' \<and> session_inv s' \<and>
           record_flag s' \<and> csv_file s' = csv_file s \<and>
           length (rows (data s')) = length (rows (data s)) + n"
  using assms
proof (induction n arbitrary: s)
  case 0
  then show ?case by simp
next
  case (Suc n)
  have ok: "buffer_ok (data s)" using Suc.prems(1) by (simp add: session_inv_def)
  from take_reading_inv[OF Suc.prems(1), of "SonicReading dt d"] obtain s1 where t:
    "take_reading (SonicReading dt d) s = Inr s1 \<and> session_inv s1 \<and>
     record_flag s1 = record_flag s" ..
  then have rr: "range_reading dt d s = Inr s1" by (simp add: take_reading_def)
  from range_reading_step[OF ok Suc.prems(2), of dt d] obtain s' where p:
    "range_reading dt d s = Inr s' \<and> record_flag s' \<and> monitor s' = monitor s \<and>
     filename s' = filename s \<and> buffer_ok (data s') \<and>
     (if length (rows (data s)) + 1 > BUFFER_SIZE
      then data s' = DataFrame [] \<and>
           (\<exists>rws. mset rws = mset (map snd (rows (data s)) @ [range_row dt d]) \<and>
              sorted (map time_stamp rws) \<and> csv_file s' = csv_file s @ map tl rws) \<and>
           count_list (printed s') (Msg ''Writing buffer...'') =
             count_list (printed s) (Msg ''Writing buffer...'') + 1
      else csv_file s' = csv_file s \<and>
           map snd (rows (data s')) = map snd (rows (data s)) @ [range_row dt d] \<and>
           count_list (printed s') (Msg ''Writing buffer...'') =
             count_list (printed s) (Msg ''Writing buffer...''))" ..
  have eq: "s' = s1" using p rr by simp
  have small: "\<not> length (rows (data s)) + 1 > BUFFER_SIZE" using Suc.prems(3) by simp
  have f1: "csv_file s1 = csv_file s"
    and m1: "map snd (rows (data s1)) = map snd (rows (data s)) @ [range_row dt d]"
    using p small eq by simp_all
  have l1: "length (rows (data s1)) = length (rows (data s)) + 1"
    using arg_cong[OF m1, of length] by simp
  have "length (rows (data s1)) + n \<le> BUFFER_SIZE" using l1 Suc.prems(3) by simp
  moreover have "record_flag s1" using t Suc.prems(2) by simp
  moreover have "session_inv s1" using t by simp
  ultimately obtain s2 where s2:
    "sampling (replicate n (SonicReading dt d)) s1 = Inr s2 \<and> session_inv s2 \<and>
     record_flag s2 \<and> csv_file s2 = csv_file s1 \<and>
     length (rows (data s2)) = length (rows (data s1)) + n"
    using Suc.IH[of s1] by blast
  show ?case using t s2 f1 l1 by simp
qed






lemma numeric_fields_tl: "length r = 3 \<Longrightarrow> numeric_fields (tl r) = numeric_fields r"
  by (auto dest!: length3 simp: numeric_fields_def)

lemma full_buffer:
  "\<exists>s. run_session 2 v f (replicate 250 (SonicReading dt d)) = Inr s \<and> session_inv s \<and>
       record_flag s \<and> csv_file s = [header_line] \<and> length (rows (data s)) = 250"
proof -
  obtain s0 where s0: "session_start 2 v f = Inr s0 \<and> session_inv s0 \<and>
        (record_flag s0 \<longrightarrow> csv_file s0 = [header_line]) \<and> rows (data s0) = [] \<and>
        record_flag s0 = snd (mode_settings 2)" using session_start_inv by blast
  have r: "record_flag s0" using s0 by (simp add: mode_settings_def)
  have "length (rows (data s0)) + 250 \<le> BUFFER_SIZE" using s0 by (simp add: BUFFER_SIZE_def)
  from sampling_range_fill[OF _ r this, of dt d] s0 obtain s where
    "sampling (replicate 250 (SonicReading dt d)) s0 = Inr s \<and> session_inv s \<and>
     record_flag s \<and> csv_file s = csv_file s0 \<and>
     length (rows (data s)) = length (rows (data s0)) + 250" by blast
  then show ?thesis using s0 r by (simp add: run_session_def)
qed

lemma session_pass:
  assumes "run_session m v f rs = Inr s" and "record_flag s"
  shows
    "(\<exists>s'. run_session m v f (rs @ [PotReading dt pv]) = Inr s' \<and>
        csv_file s' = csv_file s \<and>
        map snd (rows (data s')) = map snd (rows (data s)) @ [pot_row dt pv] \<and>
        count_list (printed s') (Msg ''Writing buffer...'') =
          count_list (printed s) (Msg ''Writing buffer...'')) \<and>
     (\<exists>s'. run_session m v f (rs @ [SonicReading dt d]) = Inr s' \<and>
        (if length (rows (data s)) + 1 > BUFFER_SIZE
         then rows (data s') = [] \<and>
              (\<exists>rws ls. csv_file s' = csv_file s @ ls \<and>
                 mset rws = mset (map snd (rows (data s)) @ [range_row dt d]) \<and>
                 sorted (map time_stamp rws) \<and>
                 map numeric_fields ls = map numeric_fields rws \<and>
                 header_line \<notin> set ls) \<and>
              count_list (printed s') (Msg ''Writing buffer...'') =
                count_list (printed s) (Msg ''Writing buffer...'') + 1
         else csv_file s' = csv_file s \<and>
              map snd (rows (data s')) = map snd (rows (data s)) @ [range_row dt d] \<and>
              count_list (printed s') (Msg ''Writing buffer...'') =
                count_list (printed s) (Msg ''Writing buffer...'')))"
proof -
  let ?W = "Msg ''Writing buffer...''"
  obtain s1 where "run_session m v f rs = Inr s1 \<and> session_inv s1 \<and>
    record_flag s1 = snd (mode_settings m)" using run_session_inv by blast
  then have inv: "session_inv s" using assms(1) by simp
  then have ok: "buffer_ok (data s)" by (simp add: session_inv_def)
  have pot: "\<exists>s'. run_session m v f (rs @ [PotReading dt pv]) = Inr s' \<and>
        csv_file s' = csv_file s \<and>
        map snd (rows (data s')) = map snd (rows (data s)) @ [pot_row dt pv] \<and>
        count_list (printed s') ?W = count_list (printed s) ?W"
  proof -
    from pot_reading_step[OF ok, of dt pv] obtain s' where p:
      "pot_reading dt pv s = Inr s' \<and> csv_file s' = csv_file s \<and>
       record_flag s' = record_flag s \<and> monitor s' = monitor s \<and>
       filename s' = filename s \<and> buffer_ok (data s') \<and>
       count_list (printed s') ?W = count_list (printed s) ?W \<and>
       (if record_flag s
        then map snd (rows (data s')) = map snd (rows (data s)) @ [pot_row dt pv]
        else data s' = data s)" ..
    show ?thesis
    proof (intro exI[of _ s'] conjI)
      show "run_session m v f (rs @ [PotReading dt pv]) = Inr s'"
        using p assms(1) by (simp add: run_session_snoc take_reading_def)
      show "csv_file s' = csv_file s" using p by simp
      show "map snd (rows (data s')) = map snd (rows (data s)) @ [pot_row dt pv]"
        using p assms(2) by simp
      show "count_list (printed s') ?W = count_list (printed s) ?W" using p by simp
    qed
  qed
  have rng: "\<exists>s'. run_session m v f (rs @ [SonicReading dt d]) = Inr s' \<and>
        (if length (rows (data s)) + 1 > BUFFER_SIZE
         then rows (data s') = [] \<and>
              (\<exists>rws ls. csv_file s' = csv_file s @ ls \<and>
                 mset rws = mset (map snd (rows (data s)) @ [range_row dt d]) \<and>
                 sorted (map time_stamp rws) \<and>
                 map numeric_fields ls = map numeric_fields rws \<and>
                 header_line \<notin> set ls) \<and>
              count_list (printed s') ?W = count_list (printed s) ?W + 1
         else csv_file s' = csv_file s \<and>
              map snd (rows (data s')) = map snd (rows (data s)) @ [range_row dt d] \<and>
              count_list (printed s') ?W = count_list (printed s) ?W)"
  proof -
    from range_reading_step[OF ok assms(2), of dt d] obtain s' where p:
      "range_reading dt d s = Inr s' \<and> record_flag s' \<and> monitor s' = monitor s \<and>
       filename s' = filename s \<and> buffer_ok (data s') \<and>
       (if length (rows (data s)) + 1 > BUFFER_SIZE
        then data s' = DataFrame [] \<and>
             (\<exists>rws. mset rws = mset (map snd (rows (data s)) @ [range_row dt d]) \<and>
                sorted (map time_stamp rws) \<and> csv_file s' = csv_file s @ map tl rws) \<and>
             count_list (printed s') ?W = count_list (printed s) ?W + 1
        else csv_file s' = csv_file s \<and>
             map snd (rows (data s')) = map snd (rows (data s)) @ [range_row dt d] \<and>
             count_list (printed s') ?W = count_list (printed s) ?W)" ..
    have run: "run_session m v f (rs @ [SonicReading dt d]) = Inr s'"
      using p assms(1) by (simp add: run_session_snoc take_reading_def)
    show ?thesis
    proof (cases "length (rows (data s)) + 1 > BUFFER_SIZE")
      case False
      then show ?thesis using p run by (intro exI[of _ s']) simp
    next
      case True
      then have e: "data s' = DataFrame []"
        and c: "count_list (printed s') ?W = count_list (printed s) ?W + 1"
        and "\<exists>rws. mset rws = mset (map snd (rows (data s)) @ [range_row dt d]) \<and>
                sorted (map time_stamp rws) \<and> csv_file s' = csv_file s @ map tl rws"
        using p by simp_all
      then obtain rws where rws: "mset rws = mset (map snd (rows (data s)) @ [range_row dt d])"
        "sorted (map time_stamp rws)" "csv_file s' = csv_file s @ map tl rws"
        by (elim exE conjE)
      have "set rws = set (map snd (rows (data s)) @ [range_row dt d])"
        using rws(1) by (rule mset_eq_setD)
      moreover have "\<forall>x\<in>set (map snd (rows (data s)) @ [range_row dt d]). reading_row x"
        using buffer_ok_rows[OF ok] range_row_ok[of dt d] by (simp add: list_all_iff)
      ultimately have all: "\<forall>x\<in>set rws. length x = 3" using reading_row_length by simp
      have nf: "map numeric_fields (map tl rws) = map numeric_fields rws"
        using all by (simp add: numeric_fields_tl)
      have "header_line \<noteq> tl x" if "x \<in> set rws" for x
        using header_not_tl[of x] all that by auto
      then have nh: "header_line \<notin> set (map tl rws)" by auto
      have ex: "\<exists>rws ls. csv_file s' = csv_file s @ ls \<and>
                 mset rws = mset (map snd (rows (data s)) @ [range_row dt d]) \<and>
                 sorted (map time_stamp rws) \<and>
                 map numeric_fields ls = map numeric_fields rws \<and>
                 header_line \<notin> set ls"
      proof (intro exI conjI)
        show "csv_file s' = csv_file s @ map tl rws" by (rule rws(3))
        show "mset rws = mset (map snd (rows (data s)) @ [range_row dt d])" by (rule rws(1))
        show "sorted (map time_stamp rws)" by (rule rws(2))
        show "map numeric_fields (map tl rws) = map numeric_fields rws" by (rule nf)
        show "header_line \<notin> set (map tl rws)" by (rule nh)
      qed
      have r0: "rows (data s') = []" using e by (simp add: DataFrame_def)
      show ?thesis
      proof (intro exI[of _ s'] conjI)
        show "run_session m v f (rs @ [SonicReading dt d]) = Inr s'" by (rule run)
        show "if length (rows (data s)) + 1 > BUFFER_SIZE
         then rows (data s') = [] \<and>
              (\<exists>rws ls. csv_file s' = csv_file s @ ls \<and>
                 mset rws = mset (map snd (rows (data s)) @ [range_row dt d]) \<and>
                 sorted (map time_stamp rws) \<and>
                 map numeric_fields ls = map numeric_fields rws \<and>
                 header_line \<notin> set ls) \<and>
              count_list (printed s') ?W = count_list (printed s) ?W + 1
         else csv_file s' = csv_file s \<and>
              map snd (rows (data s')) = map snd (rows (data s)) @ [range_row dt d] \<and>
              count_list (printed s') ?W = count_list (printed s) ?W"
          using True r0 ex c by (simp only: if_True simp_thms)
      qed
    qed
  qed
  show ?thesis using pot rng by (rule conjI)
qed

lemma rec2: "snd (mode_settings 2)"
  by (simp add: mode_settings_def)

text \<open>
  Claim C3, as amended. In a recording session the size of the buffer is tested once in
  each pass of the sampling loop, after the range reading of that pass has been appended,
  and not after a position reading. A position reading is appended and nothing is written,
  whatever the size. After a range reading, if the buffer then holds more than
  \<open>BUFFER_SIZE = 250\<close> rows there is exactly one flush: \<open>Writing buffer...\<close> is printed
  once, the buffered rows, sorted by time stamp, give one line each, appended to the file
  in that order with no header line and with the two numeric fields of the row, and the
  buffer is left empty; if it holds 250 rows or fewer, nothing is written and the row
  stays in the buffer.
\<close>

theorem flush_once_per_pass:
  assumes "run_session m v f rs = Inr s" and "record_flag s"
  shows
    "(\<exists>s'. run_session m v f (rs @ [PotReading dt pv]) = Inr s' \<and>
        csv_file s' = csv_file s \<and>
        map snd (rows (data s')) = map snd (rows (data s)) @ [pot_row dt pv] \<and>
        count_list (printed s') (Msg ''Writing buffer...'') =
          count_list (printed s) (Msg ''Writing buffer...'')) \<and>
     (\<exists>s'. run_session m v f (rs @ [SonicReading dt d]) = Inr s' \<and>
        (if length (rows (data s)) + 1 > BUFFER_SIZE
         then rows (data s') = [] \<and>
              (\<exists>rws ls. csv_file s' = csv_file s @ ls \<and>
                 mset rws = mset (map snd (rows (data s)) @ [range_row dt d]) \<and>
                 sorted (map time_stamp rws) \<and>
                 map numeric_fields ls = map numeric_fields rws \<and>
                 header_line \<notin> set ls) \<and>
              count_list (printed s') (Msg ''Writing buffer...'') =
                count_list (printed s) (Msg ''Writing buffer...'') + 1
         else csv_file s' = csv_file s \<and>
              map snd (rows (data s')) = map snd (rows (data s)) @ [range_row dt d] \<and>
              count_list (printed s') (Msg ''Writing buffer...'') =
                count_list (printed s) (Msg ''Writing buffer...'')))"
  using assms by (rule session_pass)

text \<open>
  The theorem at a session of 250 range readings followed by one more: the buffer ends
  empty and the file holds the header and 251 lines.
\<close>

theorem flush_once_per_pass_witness:
  "buffered_and_file_length
     (run_session 2 (1/2) ''f.csv'' (replicate 250 range_10 @ [range_10])) = Some (0, 252)"
proof -
  let ?ts = "''2023-04-12 10:00:00.100''"
  let ?rs = "replicate 250 (SonicReading ?ts 10)"
  obtain s where s: "run_session 2 (1/2) ''f.csv'' ?rs = Inr s \<and> session_inv s \<and>
       record_flag s \<and> csv_file s = [header_line] \<and> length (rows (data s)) = 250"
    using full_buffer by blast
  then have s1: "run_session 2 (1/2) ''f.csv'' ?rs = Inr s" and s2: "record_flag s" by simp_all
  from flush_once_per_pass[OF s1 s2, of ?ts _ 10, THEN conjunct2] obtain s' where s':
    "run_session 2 (1/2) ''f.csv'' (?rs @ [SonicReading ?ts 10]) = Inr s' \<and>
       (if length (rows (data s)) + 1 > BUFFER_SIZE
         then rows (data s') = [] \<and>
              (\<exists>rws ls. csv_file s' = csv_file s @ ls \<and>
                 mset rws = mset (map snd (rows (data s)) @ [range_row ?ts 10]) \<and>
                 sorted (map time_stamp rws) \<and>
                 map numeric_fields ls = map numeric_fields rws \<and>
                 header_line \<notin> set ls) \<and>
              count_list (printed s') (Msg ''Writing buffer...'') =
                count_list (printed s) (Msg ''Writing buffer...'') + 1
         else csv_file s' = csv_file s \<and>
              map snd (rows (data s')) = map snd (rows (data s)) @ [range_row ?ts 10] \<and>
              count_list (printed s') (Msg ''Writing buffer...'') =
                count_list (printed s) (Msg ''Writing buffer...''))" ..
  have big: "length (rows (data s)) + 1 > BUFFER_SIZE" using s by (simp add: BUFFER_SIZE_def)
  then have e: "rows (data s') = []" and
    "\<exists>rws ls. csv_file s' = csv_file s @ ls \<and>
                 mset rws = mset (map snd (rows (data s)) @ [range_row ?ts 10]) \<and>
                 sorted (map time_stamp rws) \<and>
                 map numeric_fields ls = map numeric_fields rws \<and>
                 header_line \<notin> set ls" using s' by simp_all
  then obtain rws ls where w: "csv_file s' = csv_file s @ ls"
    "mset rws = mset (map snd (rows (data s)) @ [range_row ?ts 10])"
    "map numeric_fields ls = map numeric_fields rws" by (elim exE conjE)
  have "length rws = 251" using mset_eq_length[OF w(2)] s by simp
  moreover have "length ls = length rws" using arg_cong[OF w(3), of length] by simp
  ultimately have "length (csv_file s') = 252" using w(1) s by simp
  then have "buffered_and_file_length
     (run_session 2 (1/2) ''f.csv'' (?rs @ [SonicReading ?ts 10])) = Some (0, 252)"
    using s' e by (simp add: buffered_and_file_length_def)
  then show ?thesis by (simp only: range_10_def)
qed

text \<open>
  Claim C3 as stated fails when the reading that brings the buffer to 251 rows is a
  position reading: after 250 range readings and one position reading the buffer holds
  251 rows and the file still holds the header alone; the flush comes with the next range
  reading and writes 252 lines.
\<close>

theorem flush_not_after_position_reading:
  "buffered_and_file (run_session 2 (1/2) ''f.csv'' (replicate 250 range_10 @ [pot_30])) =
     Some (251, [header_line]) \<and>
   buffered_and_file_length
     (run_session 2 (1/2) ''f.csv'' ((replicate 250 range_10 @ [pot_30]) @ [range_10])) =
     Some (0, 253)"
proof -
  let ?ts = "''2023-04-12 10:00:00.100''"
  let ?tp = "''2023-04-12 10:00:00.150''"
  let ?rs = "replicate 250 (SonicReading ?ts 10)"
  obtain s where s: "run_session 2 (1/2) ''f.csv'' ?rs = Inr s \<and> session_inv s \<and>
       record_flag s \<and> csv_file s = [header_line] \<and> length (rows (data s)) = 250"
    using full_buffer by blast
  then have s1: "run_session 2 (1/2) ''f.csv'' ?rs = Inr s" and s2: "record_flag s" by simp_all
  from session_pass[OF s1 s2, of ?tp "3/10", THEN conjunct1] obtain s' where s':
    "run_session 2 (1/2) ''f.csv'' (?rs @ [PotReading ?tp (3/10)]) = Inr s' \<and>
     csv_file s' = csv_file s \<and>
     map snd (rows (data s')) = map snd (rows (data s)) @ [pot_row ?tp (3/10)] \<and>
     count_list (printed s') (Msg ''Writing buffer...'') =
       count_list (printed s) (Msg ''Writing buffer...'')" ..
  then have m: "map snd (rows (data s')) = map snd (rows (data s)) @ [pot_row ?tp (3/10)]"
    by simp
  have l: "length (rows (data s')) = 251" using arg_cong[OF m, of length] s by simp
  have first: "buffered_and_file (run_session 2 (1/2) ''f.csv'' (?rs @ [PotReading ?tp (3/10)])) =
     Some (251, [header_line])" using s' l s by (simp add: buffered_and_file_def)
  have r1: "run_session 2 (1/2) ''f.csv'' (?rs @ [PotReading ?tp (3/10)]) = Inr s'"
    using s' by simp
  obtain x where "run_session 2 (1/2) ''f.csv'' (?rs @ [PotReading ?tp (3/10)]) = Inr x \<and>
    session_inv x \<and> record_flag x = snd (mode_settings 2)" using run_session_inv by blast
  then have r2: "record_flag s'" using r1 rec2 by simp
  from session_pass[OF r1 r2, of ?ts _ 10, THEN conjunct2] obtain s'' where s'':
    "run_session 2 (1/2) ''f.csv'' ((?rs @ [PotReading ?tp (3/10)]) @ [SonicReading ?ts 10]) = Inr s'' \<and>
       (if length (rows (data s')) + 1 > BUFFER_SIZE
         then rows (data s'') = [] \<and>
              (\<exists>rws ls. csv_file s'' = csv_file s' @ ls \<and>
                 mset rws = mset (map snd (rows (data s')) @ [range_row ?ts 10]) \<and>
                 sorted (map time_stamp rws) \<and>
                 map numeric_fields ls = map numeric_fields rws \<and>
                 header_line \<notin> set ls) \<and>
              count_list (printed s'') (Msg ''Writing buffer...'') =
                count_list (printed s') (Msg ''Writing buffer...'') + 1
         else csv_file s'' = csv_file s' \<and>
              map snd (rows (data s'')) = map snd (rows (data s')) @ [range_row ?ts 10] \<and>
              count_list (printed s'') (Msg ''Writing buffer...'') =
                count_list (printed s') (Msg ''Writing buffer...''))" ..
  have big: "length (rows (data s')) + 1 > BUFFER_SIZE" using l by (simp add: BUFFER_SIZE_def)
  then have e: "rows (data s'') = []" and
    "\<exists>rws ls. csv_file s'' = csv_file s' @ ls \<and>
                 mset rws = mset (map snd (rows (data s')) @ [range_row ?ts 10]) \<and>
                 sorted (map time_stamp rws) \<and>
                 map numeric_fields ls = map numeric_fields rws \<and>
                 header_line \<notin> set ls" using s'' by simp_all
  then obtain rws ls where w: "csv_file s'' = csv_file s' @ ls"
    "mset rws = mset (map snd (rows (data s')) @ [range_row ?ts 10])"
    "map numeric_fields ls = map numeric_fields rws" by (elim exE conjE)
  have "length rws = 252" using mset_eq_length[OF w(2)] l by simp
  moreover have "length ls = length rws" using arg_cong[OF w(3), of length] by simp
  ultimately have "length (csv_file s'') = 253" using w(1) s' s by simp
  then have second: "buffered_and_file_length
     (run_session 2 (1/2) ''f.csv'' ((?rs @ [PotReading ?tp (3/10)]) @ [SonicReading ?ts 10])) =
     Some (0, 253)" using s'' e by (simp add: buffered_and_file_length_def)
  show ?thesis using first second by (simp only: range_10_def pot_30_def simp_thms)
qed







lemma after_arrange_KeyError:
  assumes "record_flag s" and "columns (data s) = tl COLS"
  shows "on_interrupt s = Inl KeyError"
proof -
  have "\<not> set COLS \<subseteq> set (tl COLS)" by (simp add: COLS_def)
  then have "reformat (data s) = Inl KeyError"
    using assms(2) by (simp add: reformat_def select_cols_def)
  then show ?thesis using assms(1) by (simp add: on_interrupt_def Let_def)
qed

text \<open>
  Claim C9 (the code departs from it). The claim: an interrupt in the sampling loop of a
  recording session never loses buffered readings; the handler sorts and appends them.
  In the pass that starts a flush, once lines 637 to 644 have run
  (\<open>data = data[data.columns[1:]]\<close> has dropped the \<open>Date and Time\<close> column, since no
  \<open>reset_index\<close> came before it) and before line 646 has written, the buffer holds all its
  rows and the file none of them; the handler run in that state raises \<open>KeyError\<close> at
  \<open>data[['Date and Time', 'Potentiometer %', 'Distance']]\<close> before it writes anything.
\<close>

theorem interrupt_in_flush_loses_buffer:
  assumes "run_session m v f rs = Inr s" and "record_flag s"
    and "BUFFER_SIZE \<le> length (rows (data s))"
  shows "\<exists>fr bz s1. set_tone d (buzz s) = Inr (fr, bz) \<and>
           BUFFER_SIZE < length (rows (data (record_range dt d fr (s\<lparr>buzz := bz\<rparr>)))) \<and>
           flush_arrange (record_range dt d fr (s\<lparr>buzz := bz\<rparr>)) = Inr s1 \<and>
           csv_file s1 = csv_file s \<and>
           length (rows (data s1)) = length (rows (data s)) + 1 \<and>
           on_interrupt s1 = Inl KeyError"
proof -
  obtain x where "run_session m v f rs = Inr x \<and> session_inv x \<and>
    record_flag x = snd (mode_settings m)" using run_session_inv by blast
  then have ok: "buffer_ok (data s)" using assms(1) by (simp add: session_inv_def)
  obtain fr bz where t: "set_tone d (buzz s) = Inr (fr, bz)" using set_tone_total by blast
  define s0 where "s0 = s\<lparr>buzz := bz\<rparr>"
  define s1 where "s1 = record_range dt d fr s0"
  have ok0: "buffer_ok (data s0)" using ok by (simp add: s0_def)
  note r = record_range_step[OF ok0, of dt d fr, folded s1_def]
  have r1: "csv_file s1 = csv_file s" "record_flag s1" "buffer_ok (data s1)"
    "columns (data s1) = COLS"
    "map snd (rows (data s1)) = map snd (rows (data s)) @ [range_row dt d]"
    using r assms(2) by (simp_all add: s0_def)
  have len: "length (rows (data s1)) = length (rows (data s)) + 1"
    using arg_cong[OF r1(5), of length] by simp
  have "data s1 \<noteq> DataFrame []" using len by (auto simp: DataFrame_def)
  then have all: "list_all (\<lambda>(l, r). reading_row r) (rows (data s1))"
    using r1(3) by (simp add: buffer_ok_def)
  define s2 where "s2 = s1\<lparr>printed := printed s1 @ [Msg ''Writing buffer...''],
            data := \<lparr>columns = tl COLS,
                     rows = map (\<lambda>(l, r). (l, tl r)) (sort_key date_key (rows (data s1)))\<rparr>\<rparr>"
  have fa: "flush_arrange s1 = Inr s2" using flush_arrange_step[OF r1(4) all] by (simp add: s2_def)
  have c2: "csv_file s2 = csv_file s" "record_flag s2" "columns (data s2) = tl COLS"
    "length (rows (data s2)) = length (rows (data s)) + 1"
    using r1 len by (simp_all add: s2_def)
  have ki: "on_interrupt s2 = Inl KeyError" using after_arrange_KeyError[OF c2(2,3)] .
  have big: "BUFFER_SIZE < length (rows (data s1))" using len assms(3) by simp
  show ?thesis
  proof (intro exI[of _ fr] exI[of _ bz] exI[of _ s2] conjI)
    show "set_tone d (buzz s) = Inr (fr, bz)" by (rule t)
    show "BUFFER_SIZE < length (rows (data (record_range dt d fr (s\<lparr>buzz := bz\<rparr>))))"
      using big by (simp only: s1_def s0_def)
    show "flush_arrange (record_range dt d fr (s\<lparr>buzz := bz\<rparr>)) = Inr s2"
      using fa by (simp only: s1_def s0_def)
    show "csv_file s2 = csv_file s" by (rule c2(1))
    show "length (rows (data s2)) = length (rows (data s)) + 1" by (rule c2(4))
    show "on_interrupt s2 = Inl KeyError" by (rule ki)
  qed
qed

text \<open>
  The theorem at a session of 250 range readings and the pass of the next one: 251 rows
  are in the buffer, the file holds the header alone, and the handler raises.
\<close>

theorem interrupt_in_flush_loses_buffer_witness:
  "\<exists>s fr bz s1. run_session 2 (1/2) ''f.csv'' (replicate 250 range_10) = Inr s \<and>
      record_flag s \<and> length (rows (data s)) = 250 \<and>
      set_tone 10 (buzz s) = Inr (fr, bz) \<and>
      flush_arrange (record_range ''2023-04-12 10:00:00.100'' 10 fr (s\<lparr>buzz := bz\<rparr>)) = Inr s1 \<and>
      csv_file s1 = [header_line] \<and> length (rows (data s1)) = 251 \<and>
      on_interrupt s1 = Inl KeyError"
proof -
  obtain s where s: "run_session 2 (1/2) ''f.csv'' (replicate 250 (SonicReading ''2023-04-12 10:00:00.100'' 10)) = Inr s \<and> session_inv s \<and>
       record_flag s \<and> csv_file s = [header_line] \<and> length (rows (data s)) = 250"
    using full_buffer by blast
  then have run: "run_session 2 (1/2) ''f.csv'' (replicate 250 range_10) = Inr s"
    and rec: "record_flag s" and big: "BUFFER_SIZE \<le> length (rows (data s))"
    by (simp_all add: range_10_def BUFFER_SIZE_def)
  from interrupt_in_flush_loses_buffer[OF run rec big, of 10 "''2023-04-12 10:00:00.100''"]
  obtain fr bz s1 where "set_tone 10 (buzz s) = Inr (fr, bz)"
    "flush_arrange (record_range ''2023-04-12 10:00:00.100'' 10 fr (s\<lparr>buzz := bz\<rparr>)) = Inr s1"
    "csv_file s1 = csv_file s" "length (rows (data s1)) = length (rows (data s)) + 1"
    "on_interrupt s1 = Inl KeyError" by blast
  then show ?thesis using run rec s by auto
qed

end
